theory Spec2Isabelle
  imports Main "HOL-Library.List_Lexorder" "HOL-Library.Multiset"
begin

unbundle bit_operations_syntax

section \<open>Planar Langford search: the program \<open>planar_mt.cpp\<close>\<close>

text \<open>
  The program's integers are modelled as \<open>int\<close>, with the conversion to the narrower
  C++ type written out wherever the source stores into one: \<open>s8\<close> is the conversion to
  \<open>int8_t\<close>, \<open>s32\<close> the conversion to \<open>int32_t\<close>. An access outside a declared array is
  the error value \<open>OutOfBounds\<close>.
\<close>

subsection \<open>Constants and machine arithmetic\<close>

definition kMaxThreads :: int where
  "kMaxThreads = 511"

definition kMaxN :: int where
  "kMaxN = 31"

definition s8 :: "int \<Rightarrow> int" where
  "s8 x = (x + 128) mod 256 - 128"

definition s32 :: "int \<Rightarrow> int" where
  "s32 x = (x + 2147483648) mod 4294967296 - 2147483648"

definition u32 :: "int \<Rightarrow> int" where
  "u32 x = x mod 4294967296"

definition u64 :: "int \<Rightarrow> int" where
  "u64 x = x mod 18446744073709551616"

text \<open>\<open>__builtin_ffsll\<close>: one plus the index of the least significant set bit among the
  64 bits of the argument, zero when there is none.\<close>

fun ffs_from :: "nat \<Rightarrow> nat \<Rightarrow> int \<Rightarrow> int" where
  "ffs_from 0 i x = 0"
| "ffs_from (Suc c) i x = (if bit x i then int i + 1 else ffs_from c (Suc i) x)"

definition ffsll :: "int \<Rightarrow> int" where
  "ffsll x = ffs_from 64 0 x"

text \<open>The constants \<open>msb\<close> and \<open>nn1\<close> of \<open>dfs\<close>.\<close>

definition msb :: "int \<Rightarrow> int" where
  "msb n = push_bit (nat (n - 1)) 1"

definition nn1 :: "int \<Rightarrow> int" where
  "nn1 n = push_bit (nat (2 * n - 1)) 1"

definition k_limit :: "int \<Rightarrow> int" where
  "k_limit n = s8 (if n > 19 then 8 + n div 3 else n - 5)"

subsection \<open>The state of one worker\<close>

datatype error = OutOfBounds

text \<open>A frame of the explicit stack: \<open>(k, m, d, num_open)\<close>, four \<open>int8_t\<close> cells.\<close>

type_synonym frame = "int \<times> int \<times> int \<times> int"

text \<open>
  The local arrays of \<open>dfs\<close>. The field \<open>opens\<close> is the array \<open>open\<close>; \<open>stack\<close> lists the
  frames with the most recently pushed one first, so that \<open>top\<close> is four times its
  length; \<open>results\<close> are the entries this worker has appended to the ledger. The source
  leaves the arrays uninitialised; the model fills them with zeros.
\<close>

record search_state =
  availability :: "int list"
  pos :: "int list"
  opens :: "int list"
  stack :: "frame list"
  results :: "int list list"

text \<open>Pushing the frames \<open>fs\<close> in order onto a stack array of \<open>24 * n\<close> cells: the last
  cell written is \<open>4 * (length st + length fs) - 1\<close>.\<close>

definition pushes :: "int \<Rightarrow> frame list \<Rightarrow> frame list \<Rightarrow> error + frame list" where
  "pushes n fs st =
     (if 4 * (int (length st) + int (length fs)) \<le> 24 * n \<or> fs = []
      then Inr (rev fs @ st) else Inl OutOfBounds)"

text \<open>The body of the loop \<open>for (d=0; d<2; ++d)\<close> for one side: \<open>w\<close> is \<open>openings[d]\<close>.\<close>

definition close_frames :: "int \<Rightarrow> int \<Rightarrow> int \<Rightarrow> int \<Rightarrow> int \<Rightarrow> int \<Rightarrow> frame list" where
  "close_frames n k avail num_open d w =
     (if w \<noteq> 0 then
        (let offset = s8 (k - 2 * n - 2);
             m = s8 (offset + ffsll w)
         in if u32 m < u32 n \<and> drop_bit (nat m) avail AND 1 \<noteq> 0
            then (if m \<noteq> 0 \<or> k \<le> n then [(k, m, d, num_open)] else [])
            else [])
      else [])"

text \<open>The children of a node, in the order in which the source pushes them.\<close>

definition children :: "int \<Rightarrow> int \<Rightarrow> int \<Rightarrow> int \<Rightarrow> int \<Rightarrow> int \<Rightarrow> frame list" where
  "children n k avail num_open o0 o1 =
     close_frames n k avail num_open 0 o0 @ close_frames n k avail num_open 1 o1 @
     (if num_open < n then [(k, -1, 1, num_open), (k, -1, 0, num_open)] else [])"

text \<open>The test that makes a worker abandon a node at depth \<open>k_limit\<close>. \<open>hash_arg\<close> is the
  \<open>int64_t\<close> expression \<open>131071 * (openings[1] - openings[0]) + avail\<close>; the source converts
  its value to \<open>uint64_t\<close> and reduces it modulo the number of workers.\<close>

definition hash_arg :: "int \<Rightarrow> int \<Rightarrow> int \<Rightarrow> int" where
  "hash_arg avail o0 o1 = 131071 * (o1 - o0) + avail"

definition hash :: "int \<Rightarrow> int \<Rightarrow> int \<Rightarrow> int \<Rightarrow> int" where
  "hash W avail o0 o1 = u64 (hash_arg avail o0 o1) mod u64 W"

definition not_mine :: "int \<Rightarrow> int \<Rightarrow> int \<Rightarrow> int \<Rightarrow> int \<Rightarrow> int \<Rightarrow> int \<Rightarrow> bool" where
  "not_mine n W thread_id k avail o0 o1 =
     (W > 1 \<and> k = k_limit n \<and> hash W avail o0 o1 \<noteq> u64 thread_id)"

text \<open>
  \<open>place_macro\<close>, applied to the frame \<open>(k, m, d, _)\<close>: the local state it changes is
  \<open>pos\<close>, \<open>avail\<close>, \<open>openings[0]\<close>, \<open>openings[1]\<close> and \<open>num_open\<close>. The source selects
  \<open>place_macro(1)\<close> when \<open>d\<close> is non-zero and \<open>place_macro(0)\<close> otherwise.
\<close>

definition place ::
  "int \<Rightarrow> int \<Rightarrow> int \<Rightarrow> int \<Rightarrow> int list \<times> int \<times> int \<times> int \<times> int \<Rightarrow>
     int list \<times> int \<times> int \<times> int \<times> int" where
  "place n k m d st =
     (case st of (ps, avail, p0, p1, num_open) \<Rightarrow>
        if 0 \<le> m then
          (ps[nat m := k], avail XOR push_bit (nat m) 1,
           (if d = 0 then p0 AND (p0 - 1) else p0),
           (if d = 0 then p1 else p1 AND (p1 - 1)),
           num_open)
        else
          (ps, avail,
           (if d = 0 then p0 OR drop_bit (nat k) (nn1 n) else p0),
           (if d = 0 then p1 else p1 OR drop_bit (nat k) (nn1 n)),
           s8 (num_open + 1)))"

text \<open>One iteration of \<open>while (top)\<close>.\<close>

definition step :: "int \<Rightarrow> int \<Rightarrow> int \<Rightarrow> search_state \<Rightarrow> error + search_state" where
  "step n W thread_id s =
     (case stack s of
        [] \<Rightarrow> Inr s
      | (k, m, d, num_open) # rest \<Rightarrow>
          if k < 0 \<or> int (length (opens s)) \<le> 2 * k + 3 \<or> int (length (availability s)) \<le> k
          then Inl OutOfBounds
          else if 0 \<le> m \<and> int (length (pos s)) \<le> m then Inl OutOfBounds
          else if s8 (k + 1) < 0 \<or> int (length (availability s)) \<le> s8 (k + 1)
          then Inl OutOfBounds
          else
            (case place n k m d (pos s, availability s ! nat k,
                                 opens s ! nat (2 * k), opens s ! nat (2 * k + 1), num_open) of
               (pos', avail, o0, o1, num_open') \<Rightarrow>
                 let k' = s8 (k + 1);
                     s1 = s\<lparr>availability := (availability s)[nat k' := avail],
                            pos := pos',
                            opens := (opens s)[nat (2 * k + 2) := o0, nat (2 * k + 3) := o1]\<rparr>
                 in if k' = 2 * n then Inr (s1\<lparr>stack := rest, results := results s @ [pos']\<rparr>)
                    else if not_mine n W thread_id k' avail o0 o1 then Inr (s1\<lparr>stack := rest\<rparr>)
                    else (case pushes n (children n k' avail num_open' o0 o1) rest of
                            Inl e \<Rightarrow> Inl e
                          | Inr st \<Rightarrow> Inr (s1\<lparr>stack := st\<rparr>))))"

text \<open>The loop \<open>while (top)\<close>.\<close>

definition weight :: "search_state \<Rightarrow> frame \<Rightarrow> nat" where
  "weight s f =
     (let k = fst f; L = int (length (availability s))
      in if k < 0 \<or> L \<le> k then 0
         else if k \<le> 127 then 5 ^ nat (L - k) else 5 ^ nat (L + 1))"

function run :: "int \<Rightarrow> int \<Rightarrow> int \<Rightarrow> search_state \<Rightarrow> error + search_state" where
  "run n W thread_id s =
     (if stack s = [] then Inr s
      else case step n W thread_id s of
             Inl e \<Rightarrow> Inl e
           | Inr s' \<Rightarrow> run n W thread_id s')"
  by pat_completeness auto

text \<open>
  The function \<open>dfs\<close>: the worker \<open>thread_id\<close> of \<open>W\<close> workers (the constant
  \<open>kMaxThreads\<close> in the source; the parameter \<open>num_threads\<close> is unused there). The result
  lists the entries the worker appends to the ledger, in order.

  The source declares the arrays without initialising them and assigns
  \<open>availability[0]\<close>, \<open>open[0]\<close> and \<open>open[1]\<close>. \<open>start_state\<close> takes the contents that the
  arrays \<open>availability\<close>, \<open>pos\<close> and \<open>open\<close> happen to have as parameters; \<open>declared_sizes\<close>
  says that they have the sizes of the declarations. \<open>dfs\<close> runs from arrays filled
  with zeros; lemma \<open>dfs_from_any\<close> shows that the contents do not matter.
\<close>

definition start_state :: "int list \<Rightarrow> int list \<Rightarrow> int list \<Rightarrow> int \<Rightarrow> search_state" where
  "start_state av ps os n =
     \<lparr>availability = av[0 := s32 (msb n OR (msb n - 1))],
      pos = ps,
      opens = os[0 := 0, 1 := 0],
      stack = [],
      results = []\<rparr>"

definition declared_sizes :: "int \<Rightarrow> int list \<Rightarrow> int list \<Rightarrow> int list \<Rightarrow> bool" where
  "declared_sizes n av ps os \<longleftrightarrow>
     int (length av) = 2 * n + 1 \<and> int (length ps) = n \<and> int (length os) = 4 * n + 2"

definition dfs_from ::
  "int list \<Rightarrow> int list \<Rightarrow> int list \<Rightarrow> int \<Rightarrow> int \<Rightarrow> int \<Rightarrow> error + int list list" where
  "dfs_from av ps os n W thread_id =
     (case pushes n [(0, -1, 0, 0)] [] of
        Inl e \<Rightarrow> Inl e
      | Inr st \<Rightarrow>
          (case run n W thread_id ((start_state av ps os n)\<lparr>stack := st\<rparr>) of
             Inl e \<Rightarrow> Inl e
           | Inr s \<Rightarrow> Inr (results s)))"

definition init_state :: "int \<Rightarrow> search_state" where
  "init_state n =
     start_state (replicate (nat (2 * n + 1)) 0) (replicate (nat n) 0)
       (replicate (nat (4 * n + 2)) 0) n"

definition dfs :: "int \<Rightarrow> int \<Rightarrow> int \<Rightarrow> error + int list list" where
  "dfs n W thread_id =
     dfs_from (replicate (nat (2 * n + 1)) 0) (replicate (nat n) 0)
       (replicate (nat (4 * n + 2)) 0) n W thread_id"

subsection \<open>The ledger and the orchestrator\<close>

text \<open>\<open>unique_count\<close> sorts the ledger in place and counts; the model returns the ledger
  as the call leaves it, and the count. \<open>Positions<n>\<close> is \<open>std::array\<close>, compared
  lexicographically.\<close>

definition unique_count :: "int list list \<Rightarrow> int list list \<times> int" where
  "unique_count rs =
     (let total = int (length rs);
          sorted = sort rs
      in (sorted,
          fold (\<lambda>i unique. if sorted ! i = sorted ! (i - 1) then unique - 1 else unique)
            [1..<length rs] total))"

text \<open>The ledger once every worker has finished. The workers append under a mutex in an
  order that the scheduler decides; the model appends worker after worker.\<close>

fun collect :: "(error + 'a list) list \<Rightarrow> error + 'a list" where
  "collect [] = Inr []"
| "collect (r # rs) =
     (case r of
        Inl e \<Rightarrow> Inl e
      | Inr xs \<Rightarrow> (case collect rs of Inl e \<Rightarrow> Inl e | Inr ys \<Rightarrow> Inr (xs @ ys)))"

definition ledger_with ::
  "(int \<Rightarrow> int \<Rightarrow> int \<Rightarrow> error + int list list) \<Rightarrow> int \<Rightarrow> int \<Rightarrow> error + int list list" where
  "ledger_with worker W n = collect (map (worker n W) [0..W - 1])"

text \<open>\<open>solve\<close>, with the worker function and the number of workers as parameters; the
  program runs \<open>solve_with dfs kMaxThreads\<close>. The test \<open>n % 4\<close> is reached for positive
  \<open>n\<close> only, where C++'s remainder is \<open>mod\<close>.\<close>

definition solve_with ::
  "(int \<Rightarrow> int \<Rightarrow> int \<Rightarrow> error + int list list) \<Rightarrow> int \<Rightarrow> int \<Rightarrow> error + int" where
  "solve_with worker W n =
     (if n \<le> 0 \<or> n > kMaxN \<or> n mod 4 = 1 \<or> n mod 4 = 2 then Inr 0
      else case ledger_with worker W n of
             Inl e \<Rightarrow> Inl e
           | Inr rs \<Rightarrow> Inr (s32 (snd (unique_count rs))))"

definition solve :: "int \<Rightarrow> error + int" where
  "solve n = solve_with dfs kMaxThreads n"

section \<open>Specification vocabulary\<close>

text \<open>The number of maximal runs of equal adjacent entries of a list.\<close>

fun runs :: "'a list \<Rightarrow> nat" where
  "runs [] = 0"
| "runs [x] = 1"
| "runs (x # y # ys) = (if x = y then runs (y # ys) else Suc (runs (y # ys)))"

text \<open>The inputs that \<open>solve\<close> answers without starting a worker, and the values of \<open>n\<close>
  for which \<open>dfs\<close> can be instantiated.\<close>

definition degenerate :: "int \<Rightarrow> bool" where
  "degenerate n \<longleftrightarrow> n \<le> 0 \<or> n > kMaxN \<or> n mod 4 = 1 \<or> n mod 4 = 2"

definition valid_n :: "int \<Rightarrow> bool" where
  "valid_n n \<longleftrightarrow> 1 \<le> n \<and> n \<le> kMaxN"

subsection \<open>Solutions\<close>

text \<open>
  A ledger entry \<open>P\<close> is the array \<open>pos\<close>: \<open>P ! (v - 1)\<close> is the closing slot of the value
  \<open>v\<close>. Its opening slot is implied, as in \<open>print\<close>: \<open>k1 = k2 - m - 1\<close>. \<open>langford\<close> says
  that, for the values \<open>1, \<dots>, n\<close>, both slots lie in \<open>0, \<dots>, 2n - 1\<close> and the \<open>2n\<close> slots
  are pairwise distinct: the entry is a sequence in which the two occurrences of \<open>v\<close>
  have \<open>v\<close> slots between them.
\<close>

definition close_slot :: "int list \<Rightarrow> int \<Rightarrow> int" where
  "close_slot P v = P ! nat (v - 1)"

definition open_slot :: "int list \<Rightarrow> int \<Rightarrow> int" where
  "open_slot P v = close_slot P v - v - 1"

definition langford :: "int \<Rightarrow> int list \<Rightarrow> bool" where
  "langford n P \<longleftrightarrow>
     int (length P) = n \<and>
     (\<forall>v\<in>set [1..n]. 0 \<le> open_slot P v \<and> close_slot P v < 2 * n) \<and>
     distinct (map (open_slot P) [1..n] @ map (close_slot P) [1..n])"

text \<open>
  Two arcs cross when exactly one end of the second lies strictly inside the first.
  Given a side (0 or 1) for each value, \<open>noncrossing\<close> says that no two arcs of one side
  cross. An entry is \<open>planar\<close> when some choice of sides is non-crossing, and
  \<open>planar_first\<close> when in addition the arc that starts at slot 0 has side 0.
\<close>

definition crosses :: "int \<times> int \<Rightarrow> int \<times> int \<Rightarrow> bool" where
  "crosses x y \<longleftrightarrow> fst x < fst y \<and> fst y < snd x \<and> snd x < snd y"

definition noncrossing :: "int \<Rightarrow> int list \<Rightarrow> int list \<Rightarrow> bool" where
  "noncrossing n P sd \<longleftrightarrow>
     (\<forall>v\<in>set [1..n]. \<forall>v'\<in>set [1..n]. sd ! nat (v - 1) = sd ! nat (v' - 1) \<longrightarrow>
        \<not> crosses (open_slot P v, close_slot P v) (open_slot P v', close_slot P v'))"

definition planar :: "int \<Rightarrow> int list \<Rightarrow> bool" where
  "planar n P \<longleftrightarrow> (\<exists>sd\<in>set (List.n_lists (nat n) [0, 1]). noncrossing n P sd)"

definition planar_first :: "int \<Rightarrow> int list \<Rightarrow> bool" where
  "planar_first n P \<longleftrightarrow>
     (\<exists>sd\<in>set (List.n_lists (nat n) [0, 1]). noncrossing n P sd \<and>
        (\<forall>v\<in>set [1..n]. open_slot P v = 0 \<longrightarrow> sd ! nat (v - 1) = 0))"

subsection \<open>Reading the bit sets\<close>

text \<open>
  \<open>avail_vals n a\<close> are the value indices \<open>m\<close> (the value is \<open>m + 1\<close>) whose bit is set in
  the availability word \<open>a\<close>. \<open>pend n w\<close> are the slots pending in the openings word \<open>w\<close>:
  the slot \<open>j\<close> is bit \<open>2n - 1 - j\<close>, the bit that \<open>nn1 >> j\<close> sets, so that the least
  significant set bit is the largest, most recently opened slot. \<open>word_ok b x\<close> says that
  \<open>x\<close> is non-negative with no bit at or above \<open>b\<close>.
\<close>

definition avail_vals :: "int \<Rightarrow> int \<Rightarrow> int set" where
  "avail_vals n a = {m \<in> {0..<n}. bit a (nat m)}"

definition pend :: "int \<Rightarrow> int \<Rightarrow> int set" where
  "pend n w = {j \<in> {0..<2 * n}. bit w (nat (2 * n - 1 - j))}"

definition word_ok :: "int \<Rightarrow> int \<Rightarrow> bool" where
  "word_ok b x \<longleftrightarrow> 0 \<le> x \<and> x < 2 ^ nat b"

subsection \<open>Reachable states\<close>

text \<open>
  The states that the loop of a worker passes through, from any contents of the
  uninitialised arrays. \<open>state_after\<close> is the state after \<open>i\<close> iterations when the arrays
  start filled with zeros, as a function.
\<close>

inductive reachable :: "int \<Rightarrow> int \<Rightarrow> int \<Rightarrow> search_state \<Rightarrow> bool" for n W t where
  reach_start: "declared_sizes n av ps os \<Longrightarrow> pushes n [(0, - 1, 0, 0)] [] = Inr st \<Longrightarrow>
     reachable n W t ((start_state av ps os n)\<lparr>stack := st\<rparr>)"
| reach_step: "reachable n W t s \<Longrightarrow> stack s \<noteq> [] \<Longrightarrow> step n W t s = Inr s' \<Longrightarrow> reachable n W t s'"

code_pred reachable .

fun iterate :: "nat \<Rightarrow> int \<Rightarrow> int \<Rightarrow> int \<Rightarrow> search_state \<Rightarrow> error + search_state" where
  "iterate 0 n W t s = Inr s"
| "iterate (Suc i) n W t s =
     (if stack s = [] then Inr s
      else case step n W t s of Inl e \<Rightarrow> Inl e | Inr s' \<Rightarrow> iterate i n W t s')"

definition state_after :: "int \<Rightarrow> int \<Rightarrow> int \<Rightarrow> nat \<Rightarrow> error + search_state" where
  "state_after n W t i =
     (case pushes n [(0, - 1, 0, 0)] [] of
        Inl e \<Rightarrow> Inl e
      | Inr st \<Rightarrow> iterate i n W t ((init_state n)\<lparr>stack := st\<rparr>))"

section \<open>The invariant of the search\<close>

subsection \<open>A node of the decision tree\<close>

text \<open>
  A node is reached after \<open>k\<close> slots have been decided. It is described by the number
  \<open>no\<close> of open decisions among them, the set \<open>A\<close> of value indices still available, the
  sets \<open>S0\<close> and \<open>S1\<close> of the slots pending on the two sides, and the closing slot \<open>cl m\<close>
  of every value index \<open>m\<close> that is not available any more; \<open>opn cl m\<close> is its opening
  slot.

  \<^item> \<open>shape_ok\<close>: the ranges; slot 0 is never pending on side 1.
  \<^item> \<open>count_ok\<close>: \<open>k - no\<close> values are placed and \<open>no - (k - no)\<close> slots are pending.
  \<^item> \<open>arcs_ok\<close>: the slots of the placed values are below \<open>k\<close>, not pending, and pairwise
    distinct; the value 1 is closed at a slot \<open>\<le> n\<close>.
  \<^item> \<open>sides_ok\<close>: a side for each placed value such that the arc from slot 0 has side 0,
    no pending slot of a side lies under an arc of that side, and no two arcs of one
    side cross.
\<close>

definition closed_vals :: "int \<Rightarrow> int set \<Rightarrow> int set" where
  "closed_vals n A = {0..<n} - A"

definition opn :: "(int \<Rightarrow> int) \<Rightarrow> int \<Rightarrow> int" where
  "opn cl m = cl m - m - 2"

definition shape_ok :: "int \<Rightarrow> int \<Rightarrow> int \<Rightarrow> int set \<Rightarrow> int set \<Rightarrow> int set \<Rightarrow> bool" where
  "shape_ok n k no A S0 S1 \<longleftrightarrow>
     0 \<le> k \<and> k \<le> 2 * n \<and> 0 \<le> no \<and> no \<le> n \<and> A \<subseteq> {0..<n} \<and>
     S0 \<subseteq> {0..<k} \<and> S1 \<subseteq> {0..<k} \<and> S0 \<inter> S1 = {} \<and> 0 \<notin> S1"

definition count_ok :: "int \<Rightarrow> int \<Rightarrow> int \<Rightarrow> int set \<Rightarrow> int set \<Rightarrow> int set \<Rightarrow> bool" where
  "count_ok n k no A S0 S1 \<longleftrightarrow>
     int (card A) = n - (k - no) \<and> int (card S0) + int (card S1) = no - (k - no)"

definition arcs_ok :: "int \<Rightarrow> int \<Rightarrow> int set \<Rightarrow> int set \<Rightarrow> int set \<Rightarrow> (int \<Rightarrow> int) \<Rightarrow> bool" where
  "arcs_ok n k A S0 S1 cl \<longleftrightarrow>
     (\<forall>m\<in>closed_vals n A. 0 \<le> opn cl m \<and> cl m < k \<and>
        cl m \<notin> S0 \<union> S1 \<and> opn cl m \<notin> S0 \<union> S1) \<and>
     (\<forall>m\<in>closed_vals n A. \<forall>m'\<in>closed_vals n A.
        cl m \<noteq> opn cl m' \<and> (m \<noteq> m' \<longrightarrow> cl m \<noteq> cl m' \<and> opn cl m \<noteq> opn cl m')) \<and>
     (0 \<in> closed_vals n A \<longrightarrow> cl 0 \<le> n)"

definition sides_ok ::
  "int \<Rightarrow> int set \<Rightarrow> int set \<Rightarrow> int set \<Rightarrow> (int \<Rightarrow> int) \<Rightarrow> (int \<Rightarrow> int) \<Rightarrow> bool" where
  "sides_ok n A S0 S1 cl sd \<longleftrightarrow>
     (\<forall>m\<in>closed_vals n A. (sd m = 0 \<or> sd m = 1) \<and> (opn cl m = 0 \<longrightarrow> sd m = 0) \<and>
        (\<forall>j\<in>(if sd m = 0 then S0 else S1). \<not> (opn cl m < j \<and> j < cl m))) \<and>
     (\<forall>m\<in>closed_vals n A. \<forall>m'\<in>closed_vals n A.
        sd m = sd m' \<longrightarrow> \<not> crosses (opn cl m, cl m) (opn cl m', cl m'))"

definition planar_ok :: "int \<Rightarrow> int set \<Rightarrow> int set \<Rightarrow> int set \<Rightarrow> (int \<Rightarrow> int) \<Rightarrow> bool" where
  "planar_ok n A S0 S1 cl \<longleftrightarrow> (\<exists>sd. sides_ok n A S0 S1 cl sd)"

definition abs_ok ::
  "int \<Rightarrow> int \<Rightarrow> int \<Rightarrow> int set \<Rightarrow> int set \<Rightarrow> int set \<Rightarrow> (int \<Rightarrow> int) \<Rightarrow> bool" where
  "abs_ok n k no A S0 S1 cl \<longleftrightarrow>
     shape_ok n k no A S0 S1 \<and> count_ok n k no A S0 S1 \<and> arcs_ok n k A S0 S1 cl \<and>
     planar_ok n A S0 S1 cl"

text \<open>The same for the words and the array \<open>pos\<close> that represent the node.\<close>

definition node_ok :: "int \<Rightarrow> int \<Rightarrow> int \<Rightarrow> int \<Rightarrow> int \<Rightarrow> int \<Rightarrow> int list \<Rightarrow> bool" where
  "node_ok n k no a o0 o1 P \<longleftrightarrow>
     word_ok n a \<and> word_ok (2 * n) o0 \<and> word_ok (2 * n) o1 \<and> int (length P) = n \<and>
     abs_ok n k no (avail_vals n a) (pend n o0) (pend n o1) (\<lambda>m. P ! nat m)"

text \<open>
  What a frame \<open>(k, m, d, no)\<close> may ask of the node it is applied to: to open a pair
  while fewer than \<open>n\<close> are open, or to close the available value index \<open>m\<close> that
  \<open>offset + ffsll\<close> gives for the openings word of side \<open>d\<close>.
\<close>

definition decision_ok :: "int \<Rightarrow> int \<Rightarrow> int \<Rightarrow> int \<Rightarrow> int \<Rightarrow> int \<Rightarrow> int \<Rightarrow> int \<Rightarrow> bool" where
  "decision_ok n k m d no a o0 o1 \<longleftrightarrow>
     0 \<le> k \<and> k < 2 * n \<and> (d = 0 \<or> d = 1) \<and> (k = 0 \<longrightarrow> d = 0 \<and> m = - 1) \<and>
     (if m = - 1 then no < n
      else 0 \<le> m \<and> m < n \<and> bit a (nat m) \<and> (if d = 0 then o0 else o1) \<noteq> 0 \<and>
           m + 1 = k - (2 * n - ffsll (if d = 0 then o0 else o1)) - 1 \<and> (m \<noteq> 0 \<or> k \<le> n))"

definition recorded_ok :: "int \<Rightarrow> int list \<Rightarrow> bool" where
  "recorded_ok n P \<longleftrightarrow> langford n P \<and> planar_first n P \<and> close_slot P 1 \<le> n"

subsection \<open>A state of the loop\<close>

text \<open>
  A frame \<open>(k, \<dots>)\<close> waits for the node whose words are \<open>availability[k]\<close>, \<open>open[2k]\<close> and
  \<open>open[2k + 1]\<close>. The stack is sorted by depth with the deepest frame on top, the
  availability words shrink towards the top, and the part of the stack from a frame
  of depth \<open>k\<close> down has at most \<open>3k + 1\<close> frames. An iteration writes the words of
  depth \<open>k + 1\<close> and the entry of \<open>pos\<close> of a value that is available at depth \<open>k\<close>, none
  of which a frame deeper in the stack depends on.
\<close>

definition frame_inv :: "int \<Rightarrow> search_state \<Rightarrow> frame \<Rightarrow> bool" where
  "frame_inv n s f =
     (case f of (k, m, d, no) \<Rightarrow>
        node_ok n k no (availability s ! nat k) (opens s ! nat (2 * k))
          (opens s ! nat (2 * k + 1)) (pos s) \<and>
        decision_ok n k m d no (availability s ! nat k) (opens s ! nat (2 * k))
          (opens s ! nat (2 * k + 1)))"

fun stack_ok :: "int \<Rightarrow> search_state \<Rightarrow> frame list \<Rightarrow> bool" where
  "stack_ok n s [] = True"
| "stack_ok n s (f # fs) =
     (frame_inv n s f \<and>
      (\<forall>g\<in>set fs. fst g \<le> fst f \<and>
         avail_vals n (availability s ! nat (fst f)) \<subseteq> avail_vals n (availability s ! nat (fst g))) \<and>
      int (length (f # fs)) \<le> 3 * fst f + 1 \<and>
      stack_ok n s fs)"

definition state_inv :: "int \<Rightarrow> search_state \<Rightarrow> bool" where
  "state_inv n s \<longleftrightarrow>
     int (length (availability s)) = 2 * n + 1 \<and> int (length (opens s)) = 4 * n + 2 \<and>
     int (length (pos s)) = n \<and> stack_ok n s (stack s) \<and>
     (\<forall>P\<in>set (results s). recorded_ok n P)"

subsection \<open>The search as a recursion\<close>

text \<open>
  The solutions below the frame \<open>f\<close>, for the node \<open>(pos, avail, openings[0], openings[1])\<close>
  it is applied to, in the order in which the loop records them. The first argument
  bounds the depth. \<open>node_of s k\<close> is the node of depth \<open>k\<close> as the arrays of \<open>s\<close> hold it,
  and \<open>same_below n K s s'\<close> says that \<open>s'\<close> holds the same nodes as \<open>s\<close> up to depth \<open>K\<close>.
\<close>

fun sols ::
  "nat \<Rightarrow> int \<Rightarrow> int \<Rightarrow> int \<Rightarrow> frame \<Rightarrow> int list \<times> int \<times> int \<times> int \<Rightarrow> int list list" where
  "sols 0 n W t f nd = []"
| "sols (Suc fuel) n W t f nd =
     (case f of (k, m, d, no) \<Rightarrow>
        (case nd of (P, a, p0, p1) \<Rightarrow>
           (case place n k m d (P, a, p0, p1, no) of
              (P', a', o0', o1', no') \<Rightarrow>
                if k + 1 = 2 * n then [P']
                else if not_mine n W t (k + 1) a' o0' o1' then []
                else concat (map (\<lambda>c. sols fuel n W t c (P', a', o0', o1'))
                               (rev (children n (k + 1) a' no' o0' o1'))))))"

declare sols.simps [simp del]

definition node_of :: "search_state \<Rightarrow> int \<Rightarrow> int list \<times> int \<times> int \<times> int" where
  "node_of s k = (pos s, availability s ! nat k, opens s ! nat (2 * k), opens s ! nat (2 * k + 1))"

definition same_below :: "int \<Rightarrow> int \<Rightarrow> search_state \<Rightarrow> search_state \<Rightarrow> bool" where
  "same_below n K s s' \<longleftrightarrow>
     (\<forall>i. 0 \<le> i \<and> i \<le> K \<longrightarrow> availability s' ! nat i = availability s ! nat i \<and>
           opens s' ! nat (2 * i) = opens s ! nat (2 * i) \<and>
           opens s' ! nat (2 * i + 1) = opens s ! nat (2 * i + 1)) \<and>
     length (pos s') = length (pos s) \<and>
     (\<forall>i\<in>closed_vals n (avail_vals n (availability s ! nat K)). pos s' ! nat i = pos s ! nat i)"

subsection \<open>The partition\<close>

text \<open>
  \<open>top_node n s\<close> is the node that the frame on top of the stack leads to: what
  \<open>place_macro\<close> computes from the frame and the words of its depth. The state is
  \<open>at_partition\<close> when that node has the depth \<open>k_limit\<close>, where the loop tests the hash,
  and \<open>owner n W s\<close> is the worker id that the hash of the node names.
\<close>

definition top_node :: "int \<Rightarrow> search_state \<Rightarrow> int list \<times> int \<times> int \<times> int \<times> int" where
  "top_node n s =
     (case stack s of
        [] \<Rightarrow> (pos s, 0, 0, 0, 0)
      | (k, m, d, no) # rest \<Rightarrow>
          place n k m d (pos s, availability s ! nat k, opens s ! nat (2 * k),
                         opens s ! nat (2 * k + 1), no))"

definition at_partition :: "int \<Rightarrow> search_state \<Rightarrow> bool" where
  "at_partition n s = (case stack s of [] \<Rightarrow> False | f # rest \<Rightarrow> s8 (fst f + 1) = k_limit n)"

definition owner :: "int \<Rightarrow> int \<Rightarrow> search_state \<Rightarrow> int" where
  "owner n W s = (case top_node n s of (P, a, o0, o1, no) \<Rightarrow> hash W a o0 o1)"

text \<open>
  Two states of the search for \<open>n = 8\<close>, where \<open>k_limit\<close> is 3: the state after two
  iterations, whose top frame opens slot 2 and leads to a node of the partition depth,
  and the arrays that the third iteration leaves.
\<close>

definition partition_state_8 :: search_state where
  "partition_state_8 =
     \<lparr>availability = [255, 255, 255, 0, 0, 0, 0, 0, 0, 0, 0, 0, 0, 0, 0, 0, 0],
      pos = [0, 0, 0, 0, 0, 0, 0, 0],
      opens = [0, 0, 32768, 0, 49152, 0, 0, 0, 0, 0, 0, 0, 0, 0, 0, 0, 0, 0, 0,
               0, 0, 0, 0, 0, 0, 0, 0, 0, 0, 0, 0, 0, 0, 0],
      stack = [(2, - 1, 0, 2), (2, - 1, 1, 2), (1, - 1, 1, 1)],
      results = []\<rparr>"

definition explored_state_8 :: search_state where
  "explored_state_8 =
     \<lparr>availability = [255, 255, 255, 255, 0, 0, 0, 0, 0, 0, 0, 0, 0, 0, 0, 0, 0],
      pos = [0, 0, 0, 0, 0, 0, 0, 0],
      opens = [0, 0, 32768, 0, 49152, 0, 57344, 0, 0, 0, 0, 0, 0, 0, 0, 0, 0, 0, 0,
               0, 0, 0, 0, 0, 0, 0, 0, 0, 0, 0, 0, 0, 0, 0],
      stack = [],
      results = []\<rparr>"

section \<open>Termination of the search loop\<close>

lemma close_frames_shape:
  "c \<in> set (close_frames n k a no d w) \<Longrightarrow> fst c = k"
  by (auto simp: close_frames_def Let_def split: if_splits)

lemma length_close_frames: "length (close_frames n k a no d w) \<le> 1"
  by (auto simp: close_frames_def Let_def)

lemma children_depth: "c \<in> set (children n k a no o0 o1) \<Longrightarrow> fst c = k"
  by (auto simp: children_def dest: close_frames_shape split: if_splits)

lemma length_children: "length (children n k a no o0 o1) \<le> 4"
  using length_close_frames[of n k a no 0 o0] length_close_frames[of n k a no 1 o1]
  by (simp add: children_def)

lemma step_stack:
  assumes "step n W t s = Inr s'" and "stack s = (k, m, d, no) # rest"
  shows "length (availability s') = length (availability s)
       \<and> 0 \<le> k \<and> k < int (length (availability s))
       \<and> 0 \<le> s8 (k + 1) \<and> s8 (k + 1) < int (length (availability s))
       \<and> (\<exists>cs. stack s' = cs @ rest \<and> length cs \<le> 4 \<and> (\<forall>c\<in>set cs. fst c = s8 (k + 1)))"
  using assms length_children
  by (auto simp: step_def Let_def pushes_def split: if_splits sum.splits prod.splits dest: children_depth)

lemma s8_range: "-128 \<le> s8 x \<and> s8 x \<le> 127"
  by (simp add: s8_def) 

lemma s8_id: "-128 \<le> x \<Longrightarrow> x \<le> 127 \<Longrightarrow> s8 x = x"
  by (simp add: s8_def)

lemma weight_children:
  assumes "0 \<le> k" "k < int (length (availability s))" "0 \<le> s8 (k + 1)"
    "s8 (k + 1) < int (length (availability s))"
    "length (availability s') = length (availability s)"
    "\<forall>c\<in>set cs. fst c = s8 (k + 1)" "length cs \<le> 4"
  shows "sum_list (map (weight s') cs) < weight s (k, m, d, no)"
proof -
  let ?L = "int (length (availability s))"
  let ?w = "weight s' (s8 (k + 1), 0, 0, 0)"
  have eq: "\<And>c. c \<in> set cs \<Longrightarrow> weight s' c = ?w"
    using assms(6) by (simp add: weight_def)
  have "sum_list (map (weight s') cs) = sum_list (map (\<lambda>_. ?w) cs)"
    by (rule arg_cong[where f=sum_list]) (simp add: eq)
  also have "\<dots> = length cs * ?w" by (simp add: sum_list_triv)
  also have "\<dots> \<le> 4 * ?w" using assms(7) by simp
  also have "\<dots> < weight s (k, m, d, no)"
  proof (cases "k \<le> 126")
    case True
    then have e: "s8 (k + 1) = k + 1" using assms(1) by (simp add: s8_id)
    have "nat (?L - k) = Suc (nat (?L - (k + 1)))" using assms e by simp
    then show ?thesis using True assms e by (simp add: weight_def)
  next
    case False
    show ?thesis
    proof (cases "k = 127")
      case True
      then have "s8 (k + 1) = -128" by (simp add: s8_def)
      then show ?thesis using assms by simp
    next
      case False
      with \<open>\<not> k \<le> 126\<close> have k: "k \<ge> 128" by simp
      have r: "s8 (k + 1) \<le> 127" using s8_range by blast
      have "(5::nat) ^ nat (?L - s8 (k + 1)) \<le> 5 ^ nat ?L"
        by (rule power_increasing) (use assms in auto)
      moreover have "(0::nat) < 5 ^ nat ?L" by simp
      ultimately have "4 * (5::nat) ^ nat (?L - s8 (k + 1)) < 5 * 5 ^ nat ?L"
        by linarith
      moreover have "weight s (k, m, d, no) = 5 * 5 ^ nat ?L"
        using k assms by (simp add: weight_def nat_add_distrib)
      moreover have "?w = 5 ^ nat (?L - s8 (k + 1))"
        using r assms by (simp add: weight_def)
      ultimately show ?thesis by presburger
    qed
  qed
  finally show ?thesis .
qed

termination run
proof (relation "measure (\<lambda>(n, W, t, s). sum_list (map (weight s) (stack s)))", goal_cases)
  case 1 show ?case by simp
next
  case (2 n W t s s')
  obtain k m d no rest where st: "stack s = (k, m, d, no) # rest"
    using 2(1) by (cases "stack s") auto
  from step_stack[OF 2(2) st] obtain cs where
    L: "length (availability s') = length (availability s)"
    and b: "0 \<le> k" "k < int (length (availability s))" "0 \<le> s8 (k + 1)"
      "s8 (k + 1) < int (length (availability s))"
    and cs: "stack s' = cs @ rest" "length cs \<le> 4" "\<forall>c\<in>set cs. fst c = s8 (k + 1)"
    by blast
  have "weight s' = weight s"
    using L by (intro ext) (simp add: weight_def)
  then have "sum_list (map (weight s') rest) = sum_list (map (weight s) rest)"
    by simp
  moreover note weight_children[OF b L cs(3) cs(2), of m d no]
  ultimately have "sum_list (map (weight s') (cs @ rest)) < sum_list (map (weight s) ((k, m, d, no) # rest))"
    by simp
  then show ?case using st cs(1) by simp
qed

section \<open>Ledger finalisation\<close>

lemma count_fold_snoc:
  "fold (\<lambda>i u. if xs ! i = xs ! (i - 1) then u - 1 else u) [1..<length xs] c
     = c - int (length xs) + int (length (remdups_adj xs))"
  if "xs \<noteq> []" for xs :: "'a list" and c :: int
  using that
proof (induction xs arbitrary: c rule: rev_induct)
  case Nil then show ?case by simp
next
  case (snoc x xs)
  show ?case
  proof (cases "xs = []")
    case True then show ?thesis by simp
  next
    case False
    then obtain ys y where xs: "xs = ys @ [y]" by (metis rev_exhaust)
    have idx: "[1..<length (xs @ [x])] = [1..<length xs] @ [length xs]"
      using False by (simp add: Suc_leI)
    have pre: "fold (\<lambda>i u. if (xs @ [x]) ! i = (xs @ [x]) ! (i - 1) then u - 1 else u) [1..<length xs] c
             = fold (\<lambda>i u. if xs ! i = xs ! (i - 1) then u - 1 else u) [1..<length xs] c"
      by (rule fold_cong) (auto simp: nth_append)
    have lst: "(xs @ [x]) ! (length xs - 1) = y" using xs by (simp add: nth_append)
    have rd: "length (remdups_adj (xs @ [x])) = length (remdups_adj xs) + (if y = x then 0 else 1)"
      unfolding xs by (simp add: remdups_adj_append_two)
    show ?thesis
      unfolding idx fold_append comp_def pre snoc.IH[OF False]
      using lst rd by (auto simp: nth_append)
  qed
qed

lemma unique_count_eq:
  "unique_count rs = (sort rs, int (length (remdups_adj (sort rs))))"
proof (cases "rs = []")
  case True then show ?thesis by (simp add: unique_count_def)
next
  case False
  then have "sort rs \<noteq> []" by (metis length_sort length_0_conv)
  from count_fold_snoc[OF this, of "int (length rs)"] show ?thesis
    by (simp add: unique_count_def Let_def)
qed

text \<open>The workers append to the ledger in an order that the scheduler decides. The
  result of \<open>unique_count\<close> is the same for every such order: it depends on the entries
  and on how often each occurs, and on nothing else.\<close>

lemma unique_count_mset:
  "mset rs' = mset rs \<Longrightarrow> unique_count rs' = unique_count rs"
proof -
  assume "mset rs' = mset rs"
  then have "sort rs' = sort rs"
    by (metis mset_sort sorted_sort sorted_sort_id properties_for_sort)
  then show ?thesis by (simp add: unique_count_eq)
qed

lemma sorted_distinct_remdups_adj:
  "sorted xs \<Longrightarrow> distinct (remdups_adj xs)"
proof (induction xs rule: remdups_adj.induct)
  case (3 x y xs)
  then show ?case by (auto simp: less_le)
qed simp_all

lemma length_remdups_adj_sorted:
  "sorted xs \<Longrightarrow> length (remdups_adj xs) = card (set xs)"
  using sorted_distinct_remdups_adj[of xs] distinct_card[of "remdups_adj xs"] by simp

lemma runs_remdups_adj: "runs xs = length (remdups_adj xs)"
  by (induction xs rule: runs.induct) simp_all

lemma collect_const:
  "\<forall>r\<in>set rs. r = Inr xs \<Longrightarrow> collect rs = Inr (concat (replicate (length rs) xs))"
  by (induction rs) simp_all

lemma not_distinct_replicate: "2 \<le> n \<Longrightarrow> \<not> distinct (replicate n x)"
  by (cases n; cases "n - 1") simp_all

lemma dfs_3: "dfs 3 511 t = Inr [[3, 5, 4]]"
  by code_simp

lemma ledger_3: "ledger_with dfs kMaxThreads 3 = Inr (replicate 511 [3, 5, 4])"
proof -
  have "collect (map (dfs 3 511) [0..510]) = Inr (concat (replicate (length (map (dfs 3 511) [0..510])) [[3, 5, 4]]))"
    by (rule collect_const) (simp add: dfs_3)
  then show ?thesis
    by (simp add: ledger_with_def kMaxThreads_def)
qed

text \<open>
  C4, as stated, fails: \<open>unique_count\<close> sorts and counts, and removes nothing. For
  \<open>n = 3\<close> no node lies at the partition depth, every one of the 511 workers records
  the one solution, and the sorted ledger holds 511 equal entries. The entry is
  \<open>[3, 5, 4]\<close>, the closing slot of each value in value order.
\<close>

theorem ledger_keeps_duplicates:
  "ledger_with dfs kMaxThreads 3 = Inr (replicate 511 [3, 5, 4]) \<and>
   \<not> distinct (fst (unique_count (replicate 511 [3, 5, 4])))"
  by (simp add: ledger_3 unique_count_eq not_distinct_replicate)

text \<open>
  C4, amended: \<open>unique_count\<close> sorts the ledger by the lexicographic order of the stored
  arrays (entry \<open>m\<close> of an array is the closing slot of the value \<open>m + 1\<close>), keeps every
  entry, and returns the number of maximal runs of equal entries of the sorted ledger,
  which is the number of distinct entries; for a valid \<open>n\<close> and a ledger of fewer than
  \<open>2^31\<close> entries \<open>solve\<close> returns that count.
\<close>

theorem unique_count_runs:
  assumes "\<not> degenerate n" and "ledger_with worker W n = Inr rs" and "length rs < 2 ^ 31"
  shows "fst (unique_count rs) = sort rs \<and>
         sorted (fst (unique_count rs)) \<and>
         mset (fst (unique_count rs)) = mset rs \<and>
         snd (unique_count rs) = int (runs (fst (unique_count rs))) \<and>
         snd (unique_count rs) = int (card (set rs)) \<and>
         solve_with worker W n = Inr (int (runs (fst (unique_count rs))))"
proof -
  have 1: "fst (unique_count rs) = sort rs" by (simp add: unique_count_eq)
  have 4: "snd (unique_count rs) = int (runs (fst (unique_count rs)))"
    by (simp add: unique_count_eq runs_remdups_adj)
  have 5: "snd (unique_count rs) = int (card (set rs))"
    by (simp add: unique_count_eq length_remdups_adj_sorted)
  have "runs (sort rs) \<le> length rs"
    using remdups_adj_length[of "sort rs"] by (simp add: runs_remdups_adj)
  then have "s32 (int (runs (sort rs))) = int (runs (sort rs))"
    using assms(3) by (simp add: s32_def)
  then have 6: "solve_with worker W n = Inr (int (runs (fst (unique_count rs))))"
    using assms(1,2) 4 by (simp add: solve_with_def degenerate_def 1)
  show ?thesis using 1 4 5 6 by simp
qed

theorem unique_count_runs_witness:
  "\<not> degenerate 3 \<and> ledger_with dfs 1 3 = Inr [[3, 5, 4]] \<and> length [[3, 5, 4 :: int]] < 2 ^ 31 \<and>
   snd (unique_count [[3, 5, 4]]) = int (runs (fst (unique_count [[3, 5, 4]]))) \<and>
   solve_with dfs 1 3 = Inr (int (runs (fst (unique_count [[3, 5, 4]]))))"
proof -
  have d: "\<not> degenerate 3" by (simp add: degenerate_def kMaxN_def)
  have l: "ledger_with dfs 1 3 = Inr [[3, 5, 4]]" by code_simp
  have n: "length [[3, 5, 4 :: int]] < 2 ^ 31" by simp
  show ?thesis
    using d l n unique_count_runs[OF d l n] by simp
qed

section \<open>Degenerate inputs\<close>

text \<open>
  C5: for \<open>n \<le> 0\<close>, \<open>n\<close> above \<open>kMaxN\<close>, or \<open>n\<close> congruent to 1 or 2 modulo 4, \<open>solve\<close>
  returns 0, a value and not an error, and it does so whatever the worker function is:
  no worker is started.
\<close>

theorem solve_degenerate:
  "n \<le> 0 \<or> n > kMaxN \<or> n mod 4 = 1 \<or> n mod 4 = 2 \<Longrightarrow>
     solve n = Inr 0 \<and> solve_with worker W n = Inr 0"
  by (simp add: solve_def solve_with_def)

theorem solve_degenerate_witness:
  "((5::int) \<le> 0 \<or> 5 > kMaxN \<or> (5::int) mod 4 = 1 \<or> (5::int) mod 4 = 2) \<and>
   solve 5 = Inr 0 \<and> solve 0 = Inr 0 \<and> solve (- 3) = Inr 0 \<and> solve 32 = Inr 0 \<and>
   solve 6 = Inr 0"
  using solve_degenerate[of 5 dfs kMaxThreads] solve_degenerate[of 0 dfs kMaxThreads]
    solve_degenerate[of "- 3" dfs kMaxThreads] solve_degenerate[of 32 dfs kMaxThreads]
    solve_degenerate[of 6 dfs kMaxThreads]
  by (simp add: kMaxN_def)

section \<open>The invariant is preserved\<close>

lemma bit_minus_one_low:
  fixes x :: int
  shows "bit x p \<Longrightarrow> (\<forall>j<p. \<not> bit x j) \<Longrightarrow>
     bit (x - 1) i \<longleftrightarrow> (if i < p then True else if i = p then False else bit x i)"
proof (induction p arbitrary: x i)
  case 0
  then have o: "odd x" by (simp add: bit_0)
  show ?case
  proof (cases i)
    case 0 then show ?thesis using o by (simp add: bit_0)
  next
    case (Suc i')
    have "(x - 1) div 2 = x div 2" using o by (auto elim!: oddE)
    then show ?thesis using Suc by (simp add: bit_Suc)
  qed
next
  case (Suc p')
  then have e: "even x" by (auto simp: bit_0)
  have d: "(x - 1) div 2 = x div 2 - 1" using e by (auto elim!: evenE)
  have b: "bit (x div 2) p'" using Suc.prems(1) by (simp add: bit_Suc)
  have l: "\<forall>j<p'. \<not> bit (x div 2) j" using Suc.prems(2) by (auto simp: bit_Suc[symmetric])
  show ?case
  proof (cases i)
    case 0 then show ?thesis using e by (simp add: bit_0)
  next
    case (Suc i')
    show ?thesis using Suc.IH[OF b l, of i'] Suc d by (simp add: bit_Suc)
  qed
qed

lemma bit_clear_lowest:
  fixes x :: int
  assumes "bit x p" "\<forall>j<p. \<not> bit x j"
  shows "bit (x AND (x - 1)) i \<longleftrightarrow> bit x i \<and> i \<noteq> p"
  using bit_minus_one_low[OF assms, of i] assms by (auto simp: bit_and_iff)

lemma ffs_from_lowest:
  "bit x p \<Longrightarrow> i \<le> p \<Longrightarrow> p < i + c \<Longrightarrow> (\<forall>j. i \<le> j \<and> j < p \<longrightarrow> \<not> bit x j) \<Longrightarrow>
     ffs_from c i x = int p + 1"
proof (induction c arbitrary: i)
  case 0 then show ?case by simp
next
  case (Suc c)
  show ?case
  proof (cases "i = p")
    case True then show ?thesis using Suc.prems by simp
  next
    case False
    then have "\<not> bit x i" using Suc.prems by auto
    moreover have "ffs_from c (Suc i) x = int p + 1"
      using Suc.prems False by (intro Suc.IH) auto
    ultimately show ?thesis by simp
  qed
qed

lemma word_ok_bit: "word_ok b x \<Longrightarrow> bit x i \<Longrightarrow> int i < b"
proof (rule ccontr)
  assume w: "word_ok b x" and bi: "bit x i" and "\<not> int i < b"
  then have "nat b \<le> i" by simp
  then have "(2::int) ^ nat b \<le> 2 ^ i" by (simp add: power_increasing)
  moreover have "x < 2 ^ nat b" using w by (simp add: word_ok_def)
  ultimately have "x < 2 ^ i" by (rule order.strict_trans2[rotated])
  then have "x div 2 ^ i = 0" using w by (simp add: word_ok_def)
  then show False using bi by (simp add: bit_iff_odd)
qed

lemma word_okI: "0 \<le> x \<Longrightarrow> (\<And>i. bit x i \<Longrightarrow> int i < b) \<Longrightarrow> word_ok b x"
proof -
  assume nn: "0 \<le> x" and h: "\<And>i. bit x i \<Longrightarrow> int i < b"
  have "take_bit (nat b) x = x"
    by (rule bit_eqI) (use h in \<open>fastforce simp: bit_take_bit_iff\<close>)
  then have "x < 2 ^ nat b" by (metis take_bit_int_less_exp)
  then show ?thesis using nn by (simp add: word_ok_def)
qed

lemma lowest_bit_ex:
  fixes x :: int
  assumes "x \<noteq> 0" "0 \<le> x"
  obtains p where "bit x p" "\<forall>j<p. \<not> bit x j"
proof -
  have "\<exists>i. bit x i"
  proof (rule ccontr)
    assume "\<not> (\<exists>i. bit x i)"
    then have "x = 0" by (intro bit_eqI) simp
    then show False using assms by simp
  qed
  then obtain i where "bit x i" by blast
  then have "bit x (LEAST i. bit x i)" by (rule LeastI)
  moreover have "\<forall>j<(LEAST i. bit x i). \<not> bit x j" using not_less_Least by blast
  ultimately show ?thesis using that by blast
qed

lemma word_ok_nonneg: "word_ok b x \<Longrightarrow> 0 \<le> x"
  by (simp add: word_ok_def)

lemma avail_test: "(drop_bit (nat m) (a::int) AND 1 \<noteq> 0) = bit a (nat m)"
  by (simp add: and_one_eq bit_iff_odd_drop_bit odd_iff_mod_2_eq_one)

lemma avail_vals_clear:
  assumes "word_ok n a" "m \<in> avail_vals n a"
  shows "avail_vals n (a XOR push_bit (nat m) 1) = avail_vals n a - {m}"
    and "word_ok n (a XOR push_bit (nat m) 1)"
proof -
  have b: "\<And>i. bit (a XOR push_bit (nat m) 1) i \<longleftrightarrow> bit a i \<and> i \<noteq> nat m"
    using assms(2) by (auto simp: avail_vals_def bit_xor_iff bit_exp_iff)
  show "avail_vals n (a XOR push_bit (nat m) 1) = avail_vals n a - {m}"
    using assms(2) by (auto simp: avail_vals_def b simp del: push_bit_of_1)
  show "word_ok n (a XOR push_bit (nat m) 1)"
    by (rule word_okI)
      (use assms(1) in \<open>auto simp: b word_ok_def simp del: push_bit_of_1 dest: word_ok_bit[OF assms(1)]\<close>)
qed

lemma nn1_shift:
  assumes "0 \<le> k" "k < 2 * n"
  shows "drop_bit (nat k) (nn1 n) = push_bit (nat (2 * n - 1 - k)) 1"
proof -
  have "nat (2 * n - 1) = nat (2 * n - 1 - k) + nat k" using assms by simp
  then show ?thesis by (simp add: nn1_def drop_bit_exp_eq)
qed

lemma pend_open:
  assumes "word_ok (2 * n) w" "0 \<le> k" "k < 2 * n"
  shows "pend n (w OR drop_bit (nat k) (nn1 n)) = insert k (pend n w)"
    and "word_ok (2 * n) (w OR drop_bit (nat k) (nn1 n))"
proof -
  have b: "\<And>i. bit (w OR drop_bit (nat k) (nn1 n)) i \<longleftrightarrow> bit w i \<or> i = nat (2 * n - 1 - k)"
    by (auto simp: nn1_shift[OF assms(2,3)] bit_or_iff bit_exp_iff)
  show "pend n (w OR drop_bit (nat k) (nn1 n)) = insert k (pend n w)"
    using assms(2,3) by (auto simp: pend_def b)
  have "0 \<le> w OR drop_bit (nat k) (nn1 n)"
    using assms(1) by (simp add: word_ok_def nn1_def)
  then show "word_ok (2 * n) (w OR drop_bit (nat k) (nn1 n))"
    by (rule word_okI) (use assms in \<open>auto simp: b dest: word_ok_bit[OF assms(1)]\<close>)
qed

lemma pend_empty [simp]: "pend n 0 = {}"
  by (simp add: pend_def)

lemma pend_eq_empty:
  assumes "word_ok (2 * n) w"
  shows "pend n w = {} \<longleftrightarrow> w = 0"
proof
  assume e: "pend n w = {}"
  show "w = 0"
  proof (rule bit_eqI)
    fix i
    { assume bi: "bit w i"
      then have "int i < 2 * n" using word_ok_bit[OF assms] by blast
      then have "2 * n - 1 - int i \<in> pend n w" using bi by (simp add: pend_def)
      then have False using e by simp }
    then show "bit w i = bit (0::int) i" by auto
  qed
qed simp

lemma pend_close:
  assumes "word_ok (2 * n) w" "w \<noteq> 0" "n \<le> 32"
  shows "2 * n - ffsll w \<in> pend n w"
    and "\<forall>j\<in>pend n w. j \<le> 2 * n - ffsll w"
    and "pend n (w AND (w - 1)) = pend n w - {2 * n - ffsll w}"
    and "word_ok (2 * n) (w AND (w - 1))"
    and "1 \<le> ffsll w \<and> ffsll w \<le> 2 * n"
proof -
  from assms obtain p where p: "bit w p" "\<forall>j<p. \<not> bit w j"
    using lowest_bit_ex[of w] by (auto simp: word_ok_def)
  have pb: "int p < 2 * n" using word_ok_bit[OF assms(1) p(1)] .
  then have "p < 0 + 64" using assms(3) by simp
  then have f: "ffsll w = int p + 1"
    unfolding ffsll_def using p by (intro ffs_from_lowest) auto
  have b: "\<And>i. bit (w AND (w - 1)) i \<longleftrightarrow> bit w i \<and> i \<noteq> p"
    by (rule bit_clear_lowest[OF p])
  show "2 * n - ffsll w \<in> pend n w" using p(1) pb by (simp add: pend_def f)
  show "\<forall>j\<in>pend n w. j \<le> 2 * n - ffsll w"
  proof
    fix j assume "j \<in> pend n w"
    then have j: "0 \<le> j" "j < 2 * n" "bit w (nat (2 * n - 1 - j))" by (auto simp: pend_def)
    have "\<not> nat (2 * n - 1 - j) < p" using p(2) j(3) by blast
    then show "j \<le> 2 * n - ffsll w" using j f by simp
  qed
  show "pend n (w AND (w - 1)) = pend n w - {2 * n - ffsll w}"
    using pb by (auto simp: pend_def b f)
  show "word_ok (2 * n) (w AND (w - 1))"
    by (rule word_okI) (use assms(1) in \<open>auto simp: b word_ok_def dest: word_ok_bit[OF assms(1)]\<close>)
  show "1 \<le> ffsll w \<and> ffsll w \<le> 2 * n" using f pb by simp
qed

lemma avail_init:
  assumes "1 \<le> n" "n \<le> 31"
  shows "avail_vals n (s32 (msb n OR (msb n - 1))) = {0..<n}"
    and "word_ok n (s32 (msb n OR (msb n - 1)))"
proof -
  have m: "msb n = 2 ^ nat (n - 1)" by (simp add: msb_def push_bit_eq_mult)
  have "msb n - 1 = mask (nat (n - 1))" by (simp add: m mask_eq_exp_minus_1)
  then have b: "\<And>i. bit (msb n OR (msb n - 1)) i \<longleftrightarrow> int i < n"
    using assms by (auto simp: bit_or_iff bit_mask_iff msb_def bit_exp_iff)
  have "0 \<le> msb n OR (msb n - 1)" by (simp add: m)
  then have w: "word_ok n (msb n OR (msb n - 1))"
    by (rule word_okI) (simp add: b)
  have "(2::int) ^ nat n \<le> 2 ^ 31" using assms by (intro power_increasing) auto
  then have "s32 (msb n OR (msb n - 1)) = msb n OR (msb n - 1)"
    using w by (simp add: s32_def word_ok_def)
  then show "avail_vals n (s32 (msb n OR (msb n - 1))) = {0..<n}"
    and "word_ok n (s32 (msb n OR (msb n - 1)))"
    using w by (auto simp: avail_vals_def b)
qed

lemma closed_valsD: "m \<in> closed_vals n A \<Longrightarrow> 0 \<le> m \<and> m < n \<and> m \<notin> A"
  by (simp add: closed_vals_def)

lemma arcs_okD:
  assumes "arcs_ok n k A S0 S1 cl" "m \<in> closed_vals n A"
  shows "0 \<le> opn cl m" "opn cl m < cl m" "cl m < k" "opn cl m < k"
    "cl m \<notin> S0" "cl m \<notin> S1" "opn cl m \<notin> S0" "opn cl m \<notin> S1"
proof -
  have *: "0 \<le> opn cl m \<and> cl m < k \<and> cl m \<notin> S0 \<union> S1 \<and> opn cl m \<notin> S0 \<union> S1"
    using assms unfolding arcs_ok_def by blast
  have m: "0 \<le> m" using assms(2) by (simp add: closed_vals_def)
  show "0 \<le> opn cl m" "cl m < k" "cl m \<notin> S0" "cl m \<notin> S1" "opn cl m \<notin> S0" "opn cl m \<notin> S1"
    using * by auto
  show "opn cl m < cl m" using m by (simp add: opn_def)
  then show "opn cl m < k" using * by linarith
qed

lemma arcs_okD2:
  assumes "arcs_ok n k A S0 S1 cl" "m \<in> closed_vals n A" "m' \<in> closed_vals n A"
  shows "cl m \<noteq> opn cl m'" "m \<noteq> m' \<Longrightarrow> cl m \<noteq> cl m'" "m \<noteq> m' \<Longrightarrow> opn cl m \<noteq> opn cl m'"
  using assms unfolding arcs_ok_def by blast+

lemma arcs_okD0: "arcs_ok n k A S0 S1 cl \<Longrightarrow> 0 \<in> closed_vals n A \<Longrightarrow> cl 0 \<le> n"
  unfolding arcs_ok_def by blast

lemma arcs_okI:
  assumes "\<And>m. m \<in> closed_vals n A \<Longrightarrow>
              0 \<le> opn cl m \<and> cl m < k \<and> cl m \<notin> S0 \<and> cl m \<notin> S1 \<and> opn cl m \<notin> S0 \<and> opn cl m \<notin> S1"
    and "\<And>m m'. m \<in> closed_vals n A \<Longrightarrow> m' \<in> closed_vals n A \<Longrightarrow> cl m \<noteq> opn cl m'"
    and "\<And>m m'. m \<in> closed_vals n A \<Longrightarrow> m' \<in> closed_vals n A \<Longrightarrow> m \<noteq> m' \<Longrightarrow>
              cl m \<noteq> cl m' \<and> opn cl m \<noteq> opn cl m'"
    and "0 \<in> closed_vals n A \<Longrightarrow> cl 0 \<le> n"
  shows "arcs_ok n k A S0 S1 cl"
  unfolding arcs_ok_def using assms by blast

lemma sides_okD:
  assumes "sides_ok n A S0 S1 cl sd" "m \<in> closed_vals n A"
  shows "sd m = 0 \<or> sd m = 1" "opn cl m = 0 \<Longrightarrow> sd m = 0"
    "sd m = 0 \<Longrightarrow> j \<in> S0 \<Longrightarrow> \<not> (opn cl m < j \<and> j < cl m)"
    "sd m \<noteq> 0 \<Longrightarrow> j \<in> S1 \<Longrightarrow> \<not> (opn cl m < j \<and> j < cl m)"
    "m' \<in> closed_vals n A \<Longrightarrow> sd m = sd m' \<Longrightarrow> \<not> crosses (opn cl m, cl m) (opn cl m', cl m')"
proof -
  have *: "(sd m = 0 \<or> sd m = 1) \<and> (opn cl m = 0 \<longrightarrow> sd m = 0) \<and>
        (\<forall>j\<in>(if sd m = 0 then S0 else S1). \<not> (opn cl m < j \<and> j < cl m))"
    using assms unfolding sides_ok_def by blast
  show "sd m = 0 \<or> sd m = 1" "opn cl m = 0 \<Longrightarrow> sd m = 0" using * by auto
  show "sd m = 0 \<Longrightarrow> j \<in> S0 \<Longrightarrow> \<not> (opn cl m < j \<and> j < cl m)" using * by auto
  show "sd m \<noteq> 0 \<Longrightarrow> j \<in> S1 \<Longrightarrow> \<not> (opn cl m < j \<and> j < cl m)" using * by auto
  show "m' \<in> closed_vals n A \<Longrightarrow> sd m = sd m' \<Longrightarrow> \<not> crosses (opn cl m, cl m) (opn cl m', cl m')"
    using assms unfolding sides_ok_def by blast
qed

lemma sides_okI:
  assumes "\<And>m. m \<in> closed_vals n A \<Longrightarrow> (sd m = 0 \<or> sd m = 1) \<and> (opn cl m = 0 \<longrightarrow> sd m = 0)"
    and "\<And>m j. m \<in> closed_vals n A \<Longrightarrow> sd m = 0 \<Longrightarrow> j \<in> S0 \<Longrightarrow> \<not> (opn cl m < j \<and> j < cl m)"
    and "\<And>m j. m \<in> closed_vals n A \<Longrightarrow> sd m \<noteq> 0 \<Longrightarrow> j \<in> S1 \<Longrightarrow> \<not> (opn cl m < j \<and> j < cl m)"
    and "\<And>m m'. m \<in> closed_vals n A \<Longrightarrow> m' \<in> closed_vals n A \<Longrightarrow> sd m = sd m' \<Longrightarrow>
           \<not> crosses (opn cl m, cl m) (opn cl m', cl m')"
  shows "sides_ok n A S0 S1 cl sd"
  unfolding sides_ok_def using assms by (simp split: if_splits)

text \<open>Starting a pair at slot k on side d.\<close>

lemma finite_sub: "S \<subseteq> {0..<k::int} \<Longrightarrow> finite S"
  by (rule finite_subset) auto

lemma abs_ok_open:
  assumes inv: "abs_ok n k no A S0 S1 cl"
    and k: "k < 2 * n" and no: "no < n" and d: "(d::int) = 0 \<or> d = 1" and k0: "k = 0 \<longrightarrow> d = 0"
  shows "abs_ok n (k + 1) (no + 1) A
           (if d = 0 then insert k S0 else S0) (if d = 0 then S1 else insert k S1) cl"
proof -
  from inv have sh: "shape_ok n k no A S0 S1" and cn: "count_ok n k no A S0 S1"
    and ar: "arcs_ok n k A S0 S1 cl" and pl: "planar_ok n A S0 S1 cl"
    by (simp_all add: abs_ok_def)
  let ?S0 = "if d = 0 then insert k S0 else S0"
  let ?S1 = "if d = 0 then S1 else insert k S1"
  have f: "finite S0" "finite S1" "k \<notin> S0" "k \<notin> S1"
    using sh by (auto simp: shape_ok_def dest: finite_sub)
  have 1: "shape_ok n (k + 1) (no + 1) A ?S0 ?S1"
    using sh k no d k0 unfolding shape_ok_def by auto
  have 2: "count_ok n (k + 1) (no + 1) A ?S0 ?S1"
    using cn f unfolding count_ok_def by auto
  have 3: "arcs_ok n (k + 1) A ?S0 ?S1 cl"
  proof (rule arcs_okI)
    fix m assume m: "m \<in> closed_vals n A"
    show "0 \<le> opn cl m \<and> cl m < k + 1 \<and> cl m \<notin> ?S0 \<and> cl m \<notin> ?S1 \<and> opn cl m \<notin> ?S0 \<and> opn cl m \<notin> ?S1"
      using arcs_okD[OF ar m] by auto
  qed (use arcs_okD2[OF ar] arcs_okD0[OF ar] in blast)+
  from pl obtain sd where sd: "sides_ok n A S0 S1 cl sd" by (auto simp: planar_ok_def)
  have "sides_ok n A ?S0 ?S1 cl sd"
  proof (rule sides_okI)
    fix m j assume m: "m \<in> closed_vals n A" and "sd m = 0" "j \<in> ?S0"
    then show "\<not> (opn cl m < j \<and> j < cl m)"
      using sides_okD(3)[OF sd m, of j] arcs_okD(3)[OF ar m] by (auto split: if_splits)
  next
    fix m j assume m: "m \<in> closed_vals n A" and "sd m \<noteq> 0" "j \<in> ?S1"
    then show "\<not> (opn cl m < j \<and> j < cl m)"
      using sides_okD(4)[OF sd m, of j] arcs_okD(3)[OF ar m] by (auto split: if_splits)
  qed (use sides_okD[OF sd] in blast)+
  then have 4: "planar_ok n A ?S0 ?S1 cl" by (auto simp: planar_ok_def)
  show ?thesis using 1 2 3 4 by (simp add: abs_ok_def)
qed

text \<open>Closing the most recent pending slot j of side d at slot k.\<close>

lemma abs_ok_close:
  assumes inv: "abs_ok n k no A S0 S1 cl"
    and k: "k < 2 * n" and d: "(d::int) = 0 \<or> d = 1"
    and j: "j \<in> (if d = 0 then S0 else S1)" and mx: "\<forall>i\<in>(if d = 0 then S0 else S1). i \<le> j"
    and m: "m = k - j - 2" and mA: "m \<in> A" and m0: "m \<noteq> 0 \<or> k \<le> n"
  shows "abs_ok n (k + 1) no (A - {m})
           (if d = 0 then S0 - {j} else S0) (if d = 0 then S1 else S1 - {j}) (cl(m := k))"
proof -
  from inv have sh: "shape_ok n k no A S0 S1" and cn: "count_ok n k no A S0 S1"
    and ar: "arcs_ok n k A S0 S1 cl" and pl: "planar_ok n A S0 S1 cl"
    by (simp_all add: abs_ok_def)
  let ?S0 = "if d = 0 then S0 - {j} else S0"
  let ?S1 = "if d = 0 then S1 else S1 - {j}"
  let ?cl = "cl(m := k)"
  let ?C = "closed_vals n A"
  have fin: "finite S0" "finite S1" "finite A"
    using sh by (auto simp: shape_ok_def dest: finite_sub)
  have sub: "S0 \<subseteq> {0..<k}" "S1 \<subseteq> {0..<k}" "S0 \<inter> S1 = {}" "0 \<notin> S1" "A \<subseteq> {0..<n}"
    using sh by (auto simp: shape_ok_def)
  have jk: "0 \<le> j" "j < k" using j sub by (auto split: if_splits)
  have mn: "0 \<le> m" "m < n" using mA sub by auto
  have C': "closed_vals n (A - {m}) = insert m ?C"
    using mn by (auto simp: closed_vals_def)
  have mC: "m \<notin> ?C" using mA by (simp add: closed_vals_def)
  have old: "\<And>m'. m' \<in> ?C \<Longrightarrow> ?cl m' = cl m' \<and> opn ?cl m' = opn cl m'"
    using mC by (auto simp: opn_def)
  have new: "?cl m = k" "opn ?cl m = j" using m by (auto simp: opn_def)
  have 1: "shape_ok n (k + 1) no (A - {m}) ?S0 ?S1"
    using sh k unfolding shape_ok_def by auto
  have cA: "int (card (A - {m})) = int (card A) - 1"
  proof -
    have "card A > 0" using mA fin by (auto simp: card_gt_0_iff)
    then show ?thesis using mA fin by (simp add: card_Diff_singleton)
  qed
  have cS: "int (card ?S0) + int (card ?S1) = int (card S0) + int (card S1) - 1"
  proof (cases "d = 0")
    case True
    then have "card S0 > 0" using j fin by (auto simp: card_gt_0_iff)
    then show ?thesis using True j fin by (simp add: card_Diff_singleton)
  next
    case False
    then have "card S1 > 0" using j fin by (auto simp: card_gt_0_iff)
    then show ?thesis using False j fin by (simp add: card_Diff_singleton)
  qed
  have 2: "count_ok n (k + 1) no (A - {m}) ?S0 ?S1"
    using cn cA cS unfolding count_ok_def by linarith
  have jS: "j \<notin> ?S0" "j \<notin> ?S1" using j sub(3) by (auto split: if_splits)
  have S': "?S0 \<subseteq> S0" "?S1 \<subseteq> S1" by auto
  have kS: "k \<notin> S0" "k \<notin> S1" using sub by auto
  have jold: "\<And>m'. m' \<in> ?C \<Longrightarrow> cl m' \<noteq> j \<and> opn cl m' \<noteq> j"
    using arcs_okD(5-8)[OF ar] j by (auto split: if_splits)
  have 3: "arcs_ok n (k + 1) (A - {m}) ?S0 ?S1 ?cl"
  proof (rule arcs_okI)
    fix m' assume "m' \<in> closed_vals n (A - {m})"
    then consider "m' = m" | "m' \<in> ?C" using C' by auto
    then show "0 \<le> opn ?cl m' \<and> ?cl m' < k + 1 \<and> ?cl m' \<notin> ?S0 \<and> ?cl m' \<notin> ?S1 \<and>
                 opn ?cl m' \<notin> ?S0 \<and> opn ?cl m' \<notin> ?S1"
    proof cases
      case 1 then show ?thesis using new jk jS kS by auto
    next
      case 2 then show ?thesis using old[OF 2] arcs_okD[OF ar 2] by auto
    qed
  next
    fix a b assume "a \<in> closed_vals n (A - {m})" "b \<in> closed_vals n (A - {m})"
    then have ab: "a = m \<or> a \<in> ?C" "b = m \<or> b \<in> ?C" using C' by auto
    show "?cl a \<noteq> opn ?cl b"
    proof (cases "a = m")
      case True
      show ?thesis
      proof (cases "b = m")
        case True then show ?thesis using \<open>a = m\<close> new jk by auto
      next
        case False
        then have b: "b \<in> ?C" using ab by auto
        then show ?thesis using \<open>a = m\<close> new old[OF b] arcs_okD(4)[OF ar b] by auto
      qed
    next
      case False
      then have a: "a \<in> ?C" using ab by auto
      show ?thesis
      proof (cases "b = m")
        case True then show ?thesis using new old[OF a] jold[OF a] by auto
      next
        case False
        then have b: "b \<in> ?C" using ab by auto
        then show ?thesis using old[OF a] old[OF b] arcs_okD2(1)[OF ar a b] by auto
      qed
    qed
    assume ne: "a \<noteq> b"
    show "?cl a \<noteq> ?cl b \<and> opn ?cl a \<noteq> opn ?cl b"
    proof (cases "a = m")
      case True
      then have b: "b \<in> ?C" using ab ne by auto
      show ?thesis using True new old[OF b] arcs_okD(3)[OF ar b] jold[OF b] by auto
    next
      case False
      then have a: "a \<in> ?C" using ab by auto
      show ?thesis
      proof (cases "b = m")
        case True then show ?thesis using new old[OF a] arcs_okD(3)[OF ar a] jold[OF a] by auto
      next
        case False
        then have b: "b \<in> ?C" using ab by auto
        then show ?thesis using old[OF a] old[OF b] arcs_okD2(2,3)[OF ar a b ne] by auto
      qed
    qed
  next
    assume z: "0 \<in> closed_vals n (A - {m})"
    show "?cl 0 \<le> n"
    proof (cases "m = 0")
      case True then show ?thesis using m0 by simp
    next
      case False
      then have "0 \<in> ?C" using z C' by auto
      then show ?thesis using arcs_okD0[OF ar] False by simp
    qed
  qed
  from pl obtain sd where sd: "sides_ok n A S0 S1 cl sd" by (auto simp: planar_ok_def)
  let ?sd = "sd(m := d)"
  have sold: "\<And>m'. m' \<in> ?C \<Longrightarrow> ?sd m' = sd m'" using mC by auto
  have "sides_ok n (A - {m}) ?S0 ?S1 ?cl ?sd"
  proof (rule sides_okI)
    fix m' assume "m' \<in> closed_vals n (A - {m})"
    then consider "m' = m" | "m' \<in> ?C" using C' by auto
    then show "(?sd m' = 0 \<or> ?sd m' = 1) \<and> (opn ?cl m' = 0 \<longrightarrow> ?sd m' = 0)"
    proof cases
      case 1 then show ?thesis using new d j sub(4) by (auto split: if_splits)
    next
      case 2 then show ?thesis using old[OF 2] sold[OF 2] sides_okD(1,2)[OF sd 2] by auto
    qed
  next
    fix m' i assume m': "m' \<in> closed_vals n (A - {m})" and s: "?sd m' = 0" and i: "i \<in> ?S0"
    from m' consider "m' = m" | "m' \<in> ?C" using C' by auto
    then show "\<not> (opn ?cl m' < i \<and> i < ?cl m')"
    proof cases
      case 1
      then have "d = 0" using s by simp
      then have "i \<le> j" using mx i by auto
      then show ?thesis using 1 new by auto
    next
      case 2
      have "i \<in> S0" using i by (auto split: if_splits)
      then show ?thesis using old[OF 2] sold[OF 2] s sides_okD(3)[OF sd 2, of i] by auto
    qed
  next
    fix m' i assume m': "m' \<in> closed_vals n (A - {m})" and s: "?sd m' \<noteq> 0" and i: "i \<in> ?S1"
    from m' consider "m' = m" | "m' \<in> ?C" using C' by auto
    then show "\<not> (opn ?cl m' < i \<and> i < ?cl m')"
    proof cases
      case 1
      then have "d \<noteq> 0" using s by simp
      then have "i \<le> j" using mx i by auto
      then show ?thesis using 1 new by auto
    next
      case 2
      have "i \<in> S1" using i by (auto split: if_splits)
      then show ?thesis using old[OF 2] sold[OF 2] s sides_okD(4)[OF sd 2, of i] by auto
    qed
  next
    fix a b assume "a \<in> closed_vals n (A - {m})" "b \<in> closed_vals n (A - {m})"
      and eq: "?sd a = ?sd b"
    then have ab: "a = m \<or> a \<in> ?C" "b = m \<or> b \<in> ?C" using C' by auto
    show "\<not> crosses (opn ?cl a, ?cl a) (opn ?cl b, ?cl b)"
    proof (cases "a = m")
      case True
      show ?thesis
      proof (cases "b = m")
        case True then show ?thesis using \<open>a = m\<close> by (simp add: crosses_def)
      next
        case False
        then have b: "b \<in> ?C" using ab by auto
        show ?thesis using \<open>a = m\<close> new old[OF b] arcs_okD(3)[OF ar b]
          by (auto simp: crosses_def)
      qed
    next
      case False
      then have a: "a \<in> ?C" using ab by auto
      show ?thesis
      proof (cases "b = m")
        case True
        have sa: "sd a = d" using eq True sold[OF a] by simp
        have "\<not> (opn cl a < j \<and> j < cl a)"
        proof (cases "d = 0")
          case True
          then show ?thesis using sides_okD(3)[OF sd a, of j] sa j by auto
        next
          case False
          then show ?thesis using sides_okD(4)[OF sd a, of j] sa j by auto
        qed
        then show ?thesis using True new old[OF a] by (auto simp: crosses_def)
      next
        case False
        then have b: "b \<in> ?C" using ab by auto
        then show ?thesis
          using old[OF a] old[OF b] sold[OF a] sold[OF b] eq sides_okD(5)[OF sd a b] by auto
      qed
    qed
  qed
  then have 4: "planar_ok n (A - {m}) ?S0 ?S1 ?cl" unfolding planar_ok_def by blast
  show ?thesis using 1 2 3 4 by (simp add: abs_ok_def)
qed

lemma abs_ok_cong:
  assumes "\<And>m. m \<in> closed_vals n A \<Longrightarrow> cl' m = cl m"
    and "abs_ok n k no A S0 S1 cl"
  shows "abs_ok n k no A S0 S1 cl'"
proof -
  have o: "\<And>m. m \<in> closed_vals n A \<Longrightarrow> opn cl' m = opn cl m"
    using assms(1) by (simp add: opn_def)
  from assms(2) have sh: "shape_ok n k no A S0 S1" and cn: "count_ok n k no A S0 S1"
    and ar: "arcs_ok n k A S0 S1 cl" and pl: "planar_ok n A S0 S1 cl"
    by (simp_all add: abs_ok_def)
  have 3: "arcs_ok n k A S0 S1 cl'"
  proof (rule arcs_okI)
    fix m assume m: "m \<in> closed_vals n A"
    show "0 \<le> opn cl' m \<and> cl' m < k \<and> cl' m \<notin> S0 \<and> cl' m \<notin> S1 \<and> opn cl' m \<notin> S0 \<and> opn cl' m \<notin> S1"
      using arcs_okD[OF ar m] assms(1)[OF m] o[OF m] by simp
  next
    fix a b assume a: "a \<in> closed_vals n A" and b: "b \<in> closed_vals n A"
    show "cl' a \<noteq> opn cl' b" using arcs_okD2(1)[OF ar a b] assms(1)[OF a] o[OF b] by simp
    assume "a \<noteq> b"
    then show "cl' a \<noteq> cl' b \<and> opn cl' a \<noteq> opn cl' b"
      using arcs_okD2(2,3)[OF ar a b] assms(1)[OF a] assms(1)[OF b] o[OF a] o[OF b] by simp
  next
    assume z: "0 \<in> closed_vals n A"
    show "cl' 0 \<le> n" using arcs_okD0[OF ar z] assms(1)[OF z] by simp
  qed
  from pl obtain sd where sd: "sides_ok n A S0 S1 cl sd" by (auto simp: planar_ok_def)
  have "sides_ok n A S0 S1 cl' sd"
  proof (rule sides_okI)
    fix m assume m: "m \<in> closed_vals n A"
    show "(sd m = 0 \<or> sd m = 1) \<and> (opn cl' m = 0 \<longrightarrow> sd m = 0)"
      using sides_okD(1,2)[OF sd m] o[OF m] by auto
  next
    fix m j assume m: "m \<in> closed_vals n A" and "sd m = 0" "j \<in> S0"
    then show "\<not> (opn cl' m < j \<and> j < cl' m)"
      using sides_okD(3)[OF sd m, of j] o[OF m] assms(1)[OF m] by simp
  next
    fix m j assume m: "m \<in> closed_vals n A" and "sd m \<noteq> 0" "j \<in> S1"
    then show "\<not> (opn cl' m < j \<and> j < cl' m)"
      using sides_okD(4)[OF sd m, of j] o[OF m] assms(1)[OF m] by simp
  next
    fix a b assume a: "a \<in> closed_vals n A" and b: "b \<in> closed_vals n A" and "sd a = sd b"
    then show "\<not> crosses (opn cl' a, cl' a) (opn cl' b, cl' b)"
      using sides_okD(5)[OF sd a b] o[OF a] o[OF b] assms(1)[OF a] assms(1)[OF b] by simp
  qed
  then have 4: "planar_ok n A S0 S1 cl'" unfolding planar_ok_def by blast
  show ?thesis using sh cn 3 4 by (simp add: abs_ok_def)
qed

lemma abs_ok_init: "1 \<le> n \<Longrightarrow> abs_ok n 0 0 {0..<n} {} {} cl"
  by (simp add: abs_ok_def shape_ok_def count_ok_def arcs_ok_def planar_ok_def sides_ok_def
      closed_vals_def)

lemma abs_ok_final:
  assumes "abs_ok n (2 * n) no A S0 S1 cl"
  shows "A = {}" "S0 = {}" "S1 = {}" "no = n"
proof -
  from assms have sh: "shape_ok n (2 * n) no A S0 S1" and cn: "count_ok n (2 * n) no A S0 S1"
    by (simp_all add: abs_ok_def)
  have fin: "finite S0" "finite S1" "finite A"
    using sh by (auto simp: shape_ok_def dest: finite_sub)
  have le: "no \<le> n" using sh by (simp add: shape_ok_def)
  have "int (card A) = no - n" using cn by (simp add: count_ok_def)
  then have "card A = 0 \<and> no = n" using le by linarith
  then show "A = {}" "no = n" using fin by auto
  then have "int (card S0) + int (card S1) = 0" using cn by (simp add: count_ok_def)
  then have "card S0 = 0 \<and> card S1 = 0" by linarith
  then show "S0 = {}" "S1 = {}" using fin by auto
qed

lemma node_ok_place:
  assumes n: "valid_n n" and nd: "node_ok n k no a o0 o1 P"
    and dc: "decision_ok n k m d no a o0 o1"
    and pl: "place n k m d (P, a, o0, o1, no) = (P', a', o0', o1', no')"
  shows "node_ok n (k + 1) no' a' o0' o1' P'"
    and "avail_vals n a' \<subseteq> avail_vals n a"
    and "\<forall>i\<in>closed_vals n (avail_vals n a). P' ! nat i = P ! nat i"
    and "0 \<le> no' \<and> no' \<le> n"
proof -
  from n have n31: "1 \<le> n" "n \<le> 31" by (simp_all add: valid_n_def kMaxN_def)
  from nd have wa: "word_ok n a" and w0: "word_ok (2 * n) o0" and w1: "word_ok (2 * n) o1"
    and lp: "int (length P) = n"
    and ab: "abs_ok n k no (avail_vals n a) (pend n o0) (pend n o1) (\<lambda>m. P ! nat m)"
    by (simp_all add: node_ok_def)
  from dc have k: "0 \<le> k" "k < 2 * n" and d: "d = 0 \<or> d = 1" and k0: "k = 0 \<longrightarrow> d = 0"
    by (simp_all add: decision_ok_def)
  from ab have no: "0 \<le> no" "no \<le> n" by (simp_all add: abs_ok_def shape_ok_def)
  have "node_ok n (k + 1) no' a' o0' o1' P'
      \<and> avail_vals n a' \<subseteq> avail_vals n a
      \<and> (\<forall>i\<in>closed_vals n (avail_vals n a). P' ! nat i = P ! nat i)
      \<and> (0 \<le> no' \<and> no' \<le> n)" (is ?goal)
  proof (cases "m = - 1")
    case True
    then have non: "no < n" using dc by (simp add: decision_ok_def)
    then have s: "s8 (no + 1) = no + 1" using no n31 by (intro s8_id) auto
    from pl True s have eq: "P' = P" "a' = a" "no' = no + 1"
      "o0' = (if d = 0 then o0 OR drop_bit (nat k) (nn1 n) else o0)"
      "o1' = (if d = 0 then o1 else o1 OR drop_bit (nat k) (nn1 n))"
      by (simp_all add: place_def)
    have p0: "pend n o0' = (if d = 0 then insert k (pend n o0) else pend n o0)"
      and p1: "pend n o1' = (if d = 0 then pend n o1 else insert k (pend n o1))"
      and w0': "word_ok (2 * n) o0'" and w1': "word_ok (2 * n) o1'"
      using pend_open[OF w0 k] pend_open[OF w1 k] w0 w1 by (simp_all add: eq)
    have "abs_ok n (k + 1) (no + 1) (avail_vals n a) (pend n o0') (pend n o1') (\<lambda>m. P ! nat m)"
      unfolding p0 p1 by (rule abs_ok_open[OF ab k(2) non d k0])
    then show ?thesis using wa w0' w1' lp non no by (simp add: node_ok_def eq)
  next
    case False
    then have m: "0 \<le> m" "m < n" "bit a (nat m)" and wne: "(if d = 0 then o0 else o1) \<noteq> 0"
      and mf: "m + 1 = k - (2 * n - ffsll (if d = 0 then o0 else o1)) - 1"
      and m0: "m \<noteq> 0 \<or> k \<le> n"
      using dc by (simp_all add: decision_ok_def)
    let ?w = "if d = 0 then o0 else o1"
    let ?j = "2 * n - ffsll ?w"
    have n32: "n \<le> 32" using n31 by simp
    from pl False m have eq: "P' = P[nat m := k]" "a' = a XOR push_bit (nat m) 1" "no' = no"
      "o0' = (if d = 0 then o0 AND (o0 - 1) else o0)"
      "o1' = (if d = 0 then o1 else o1 AND (o1 - 1))"
      by (simp_all add: place_def)
    have mA: "m \<in> avail_vals n a" using m by (simp add: avail_vals_def)
    have A': "avail_vals n a' = avail_vals n a - {m}" and wa': "word_ok n a'"
      using avail_vals_clear[OF wa mA] by (simp_all add: eq)
    have all: "pend n o0' = (if d = 0 then pend n o0 - {?j} else pend n o0) \<and>
        pend n o1' = (if d = 0 then pend n o1 else pend n o1 - {?j}) \<and>
        word_ok (2 * n) o0' \<and> word_ok (2 * n) o1' \<and>
        ?j \<in> (if d = 0 then pend n o0 else pend n o1) \<and>
        (\<forall>i\<in>(if d = 0 then pend n o0 else pend n o1). i \<le> ?j)"
    proof (cases "d = 0")
      case True
      then have "o0 \<noteq> 0" using wne by simp
      note pc = pend_close[OF w0 this n32]
      show ?thesis using pc(1-4) w1 True by (simp add: eq)
    next
      case False
      then have "o1 \<noteq> 0" using wne by simp
      note pc = pend_close[OF w1 this n32]
      show ?thesis using pc(1-4) w0 False by (simp add: eq)
    qed
    then have p0: "pend n o0' = (if d = 0 then pend n o0 - {?j} else pend n o0)"
      and p1: "pend n o1' = (if d = 0 then pend n o1 else pend n o1 - {?j})"
      and w0': "word_ok (2 * n) o0'" and w1': "word_ok (2 * n) o1'"
      and j: "?j \<in> (if d = 0 then pend n o0 else pend n o1)"
      and mx: "\<forall>i\<in>(if d = 0 then pend n o0 else pend n o1). i \<le> ?j"
      by blast+
    have mj: "m = k - ?j - 2" using mf by simp
    have st: "abs_ok n (k + 1) no (avail_vals n a') (pend n o0') (pend n o1')
                ((\<lambda>m. P ! nat m)(m := k))"
      unfolding A' p0 p1 by (rule abs_ok_close[OF ab k(2) d j mx mj mA m0])
    have "abs_ok n (k + 1) no (avail_vals n a') (pend n o0') (pend n o1') (\<lambda>i. P' ! nat i)"
    proof (rule abs_ok_cong[OF _ st])
      fix i assume "i \<in> closed_vals n (avail_vals n a')"
      then have "0 \<le> i" "i < n" by (simp_all add: closed_vals_def)
      then show "P' ! nat i = ((\<lambda>m. P ! nat m)(m := k)) i"
        using m lp by (auto simp: eq nth_list_update)
    qed
    moreover have "\<forall>i\<in>closed_vals n (avail_vals n a). P' ! nat i = P ! nat i"
    proof
      fix i assume "i \<in> closed_vals n (avail_vals n a)"
      then have "0 \<le> i" "i \<noteq> m" using mA by (auto simp: closed_vals_def)
      then have "nat i \<noteq> nat m" using m by simp
      then show "P' ! nat i = P ! nat i" by (simp add: eq)
    qed
    ultimately show ?thesis using wa' w0' w1' lp A' no by (auto simp: node_ok_def eq)
  qed
  then show "node_ok n (k + 1) no' a' o0' o1' P'"
    and "avail_vals n a' \<subseteq> avail_vals n a"
    and "\<forall>i\<in>closed_vals n (avail_vals n a). P' ! nat i = P ! nat i"
    and "0 \<le> no' \<and> no' \<le> n" by blast+
qed

lemma u32_less:
  assumes "1 \<le> n" "n \<le> 31" "- 128 \<le> m" "m \<le> 127"
  shows "u32 m < u32 n \<longleftrightarrow> 0 \<le> m \<and> m < n"
proof -
  have n: "u32 n = n" using assms by (simp add: u32_def)
  show ?thesis
  proof (cases "0 \<le> m")
    case True
    then have "u32 m = m" using assms by (simp add: u32_def)
    then show ?thesis using n True by simp
  next
    case False
    then have "(m + 4294967296) mod 4294967296 = m + 4294967296"
      using assms by (intro mod_pos_pos_trivial) auto
    then have "m mod 4294967296 = m + 4294967296"
      by (simp only: mod_add_self2)
    then show ?thesis using n False assms by (simp add: u32_def)
  qed
qed

lemma close_frames_ok:
  assumes n: "valid_n n" and w: "word_ok (2 * n) w" and k: "1 \<le> k" "k < 2 * n"
    and c: "(k', m, d', no') \<in> set (close_frames n k a no d w)"
  shows "k' = k \<and> d' = d \<and> no' = no \<and> w \<noteq> 0 \<and> 0 \<le> m \<and> m < n \<and> bit a (nat m) \<and>
         m + 1 = k - (2 * n - ffsll w) - 1 \<and> (m \<noteq> 0 \<or> k \<le> n)"
proof -
  from n have n31: "1 \<le> n" "n \<le> 31" by (simp_all add: valid_n_def kMaxN_def)
  from c have wne: "w \<noteq> 0" by (auto simp: close_frames_def split: if_splits)
  have n32: "n \<le> 32" using n31 by simp
  have f: "1 \<le> ffsll w" "ffsll w \<le> 2 * n" using pend_close(5)[OF w wne n32] by simp_all
  have off: "s8 (k - 2 * n - 2) = k - 2 * n - 2" using k n31 by (intro s8_id) auto
  have mm: "s8 (k - 2 * n - 2 + ffsll w) = k - 2 * n - 2 + ffsll w"
    using k n31 f by (intro s8_id) auto
  let ?m = "k - 2 * n - 2 + ffsll w"
  have r: "- 128 \<le> ?m" "?m \<le> 127" using k n31 f by auto
  have t: "u32 ?m < u32 n \<longleftrightarrow> 0 \<le> ?m \<and> ?m < n" by (rule u32_less[OF n31 r])
  from c wne have "u32 ?m < u32 n \<and> drop_bit (nat ?m) a AND 1 \<noteq> 0 \<and> (?m \<noteq> 0 \<or> k \<le> n)
      \<and> (k', m, d', no') = (k, ?m, d, no)"
    unfolding close_frames_def Let_def off mm by (simp split: if_splits)
  then show ?thesis using t wne by (simp add: avail_test)
qed

lemma children_ok:
  assumes n: "valid_n n" and nd: "node_ok n k no a o0 o1 P" and k: "1 \<le> k" "k < 2 * n"
    and c: "(k', m, d, no') \<in> set (children n k a no o0 o1)"
  shows "decision_ok n k m d no a o0 o1 \<and> k' = k \<and> no' = no"
proof -
  from nd have w0: "word_ok (2 * n) o0" and w1: "word_ok (2 * n) o1"
    by (simp_all add: node_ok_def)
  from c consider "(k', m, d, no') \<in> set (close_frames n k a no 0 o0)"
    | "(k', m, d, no') \<in> set (close_frames n k a no 1 o1)"
    | "no < n" "(k', m, d, no') = (k, - 1, 1, no) \<or> (k', m, d, no') = (k, - 1, 0, no)"
    by (auto simp: children_def split: if_splits)
  then show ?thesis
  proof cases
    case 1
    from close_frames_ok[OF n w0 k 1] show ?thesis using k by (simp add: decision_ok_def)
  next
    case 2
    from close_frames_ok[OF n w1 k 2] show ?thesis using k by (simp add: decision_ok_def)
  next
    case 3
    then show ?thesis using k by (auto simp: decision_ok_def)
  qed
qed

lemma node_ok_cong:
  assumes "node_ok n k no a o0 o1 P" "length P' = length P"
    "\<forall>i\<in>closed_vals n (avail_vals n a). P' ! nat i = P ! nat i"
  shows "node_ok n k no a o0 o1 P'"
proof -
  from assms(1) have ab: "abs_ok n k no (avail_vals n a) (pend n o0) (pend n o1) (\<lambda>m. P ! nat m)"
    by (simp add: node_ok_def)
  have "abs_ok n k no (avail_vals n a) (pend n o0) (pend n o1) (\<lambda>m. P' ! nat m)"
    by (rule abs_ok_cong[OF _ ab]) (use assms(3) in simp)
  then show ?thesis using assms(1,2) by (simp add: node_ok_def)
qed

lemma frame_inv_cong:
  assumes f: "frame_inv n s (k, m, d, no)"
    and a: "availability s' ! nat k = availability s ! nat k"
    and o: "opens s' ! nat (2 * k) = opens s ! nat (2 * k)"
      "opens s' ! nat (2 * k + 1) = opens s ! nat (2 * k + 1)"
    and l: "length (pos s') = length (pos s)"
    and p: "\<forall>i\<in>closed_vals n (avail_vals n (availability s ! nat k)). pos s' ! nat i = pos s ! nat i"
  shows "frame_inv n s' (k, m, d, no)"
  using f node_ok_cong[OF _ l p] unfolding frame_inv_def by (simp add: a o)

lemma frame_inv_k: "frame_inv n s f \<Longrightarrow> 0 \<le> fst f \<and> fst f < 2 * n"
  by (auto simp: frame_inv_def decision_ok_def)

lemma closed_vals_mono: "A \<subseteq> B \<Longrightarrow> closed_vals n B \<subseteq> closed_vals n A"
  by (auto simp: closed_vals_def)

lemma stack_ok_rest:
  assumes "stack_ok n s fs"
    and "\<forall>g\<in>set fs. fst g \<le> K \<and>
           avail_vals n (availability s ! nat K) \<subseteq> avail_vals n (availability s ! nat (fst g))"
    and "\<forall>i. 0 \<le> i \<and> i \<le> K \<longrightarrow> availability s' ! nat i = availability s ! nat i \<and>
           opens s' ! nat (2 * i) = opens s ! nat (2 * i) \<and>
           opens s' ! nat (2 * i + 1) = opens s ! nat (2 * i + 1)"
    and "length (pos s') = length (pos s)"
    and "\<forall>i\<in>closed_vals n (avail_vals n (availability s ! nat K)). pos s' ! nat i = pos s ! nat i"
  shows "stack_ok n s' fs"
  using assms(1,2)
proof (induction fs)
  case Nil then show ?case by simp
next
  case (Cons f fs)
  obtain k m d no where f: "f = (k, m, d, no)" by (cases f) auto
  from Cons.prems(1) have fi: "frame_inv n s (k, m, d, no)" and rest: "stack_ok n s fs"
    and ord: "\<forall>g\<in>set fs. fst g \<le> k \<and>
         avail_vals n (availability s ! nat k) \<subseteq> avail_vals n (availability s ! nat (fst g))"
    and len: "int (length (f # fs)) \<le> 3 * k + 1"
    by (simp_all add: f)
  have k: "0 \<le> k" "k \<le> K" using frame_inv_k[OF fi] Cons.prems(2) by (simp_all add: f)
  have sub: "avail_vals n (availability s ! nat K) \<subseteq> avail_vals n (availability s ! nat k)"
    using Cons.prems(2) by (simp add: f)
  have eqs: "availability s' ! nat k = availability s ! nat k"
    "opens s' ! nat (2 * k) = opens s ! nat (2 * k)"
    "opens s' ! nat (2 * k + 1) = opens s ! nat (2 * k + 1)"
    using assms(3) k by blast+
  have p: "\<forall>i\<in>closed_vals n (avail_vals n (availability s ! nat k)). pos s' ! nat i = pos s ! nat i"
    using assms(5) closed_vals_mono[OF sub] by blast
  have 1: "frame_inv n s' (k, m, d, no)"
    by (rule frame_inv_cong[OF fi eqs assms(4) p])
  have 2: "stack_ok n s' fs" using Cons.IH[OF rest] Cons.prems(2) by simp
  have 3: "\<forall>g\<in>set fs. fst g \<le> k \<and>
         avail_vals n (availability s' ! nat k) \<subseteq> avail_vals n (availability s' ! nat (fst g))"
  proof
    fix g assume g: "g \<in> set fs"
    have "frame_inv n s' g" using 2 g by (induction fs) auto
    then have "0 \<le> fst g" using frame_inv_k by blast
    moreover have "fst g \<le> K" using Cons.prems(2) g by simp
    ultimately have "availability s' ! nat (fst g) = availability s ! nat (fst g)"
      using assms(3) by blast
    then show "fst g \<le> k \<and>
         avail_vals n (availability s' ! nat k) \<subseteq> avail_vals n (availability s' ! nat (fst g))"
      using ord g eqs(1) by simp
  qed
  show ?case using 1 2 3 len by (simp add: f)
qed

lemma node_ok_final:
  assumes n: "1 \<le> n" and nd: "node_ok n (2 * n) no a o0 o1 P"
  shows "recorded_ok n P" and "avail_vals n a = {}" and "o0 = 0" and "o1 = 0" and "no = n"
proof -
  let ?cl = "\<lambda>m. P ! nat m"
  from nd have ab: "abs_ok n (2 * n) no (avail_vals n a) (pend n o0) (pend n o1) ?cl"
    and lp: "int (length P) = n" and w: "word_ok (2 * n) o0" "word_ok (2 * n) o1"
    by (simp_all add: node_ok_def)
  note fin = abs_ok_final[OF ab]
  show "avail_vals n a = {}" "no = n" using fin by simp_all
  show "o0 = 0" "o1 = 0" using fin pend_eq_empty w by simp_all
  have C: "closed_vals n (avail_vals n a) = {0..<n}" using fin(1) by (simp add: closed_vals_def)
  from ab have ar: "arcs_ok n (2 * n) (avail_vals n a) (pend n o0) (pend n o1) ?cl"
    and pl: "planar_ok n (avail_vals n a) (pend n o0) (pend n o1) ?cl"
    by (simp_all add: abs_ok_def)
  have mem: "\<And>v. v \<in> set [1..n] \<Longrightarrow> v - 1 \<in> closed_vals n (avail_vals n a)"
    unfolding C by auto
  have cs: "\<And>v. close_slot P v = ?cl (v - 1)" by (simp add: close_slot_def)
  have os: "\<And>v. open_slot P v = opn ?cl (v - 1)" by (simp add: open_slot_def close_slot_def opn_def)
  have b: "\<forall>v\<in>set [1..n]. 0 \<le> open_slot P v \<and> close_slot P v < 2 * n"
  proof
    fix v assume v: "v \<in> set [1..n]"
    show "0 \<le> open_slot P v \<and> close_slot P v < 2 * n"
      using arcs_okD(1,3)[OF ar mem[OF v]] by (simp add: cs os)
  qed
  have i1: "inj_on (open_slot P) (set [1..n])"
  proof (rule inj_onI)
    fix x y assume "x \<in> set [1..n]" "y \<in> set [1..n]" "open_slot P x = open_slot P y"
    then show "x = y" using arcs_okD2(3)[OF ar mem mem, of x y] by (auto simp: os)
  qed
  have i2: "inj_on (close_slot P) (set [1..n])"
  proof (rule inj_onI)
    fix x y assume "x \<in> set [1..n]" "y \<in> set [1..n]" "close_slot P x = close_slot P y"
    then show "x = y" using arcs_okD2(2)[OF ar mem mem, of x y] by (auto simp: cs)
  qed
  have dj: "open_slot P ` set [1..n] \<inter> close_slot P ` set [1..n] = {}"
  proof -
    { fix x y assume "x \<in> set [1..n]" "y \<in> set [1..n]"
      then have "close_slot P y \<noteq> open_slot P x"
        using arcs_okD2(1)[OF ar mem mem, of y x] by (simp add: cs os) }
    then have "\<And>x y. x \<in> set [1..n] \<Longrightarrow> y \<in> set [1..n] \<Longrightarrow> open_slot P x \<noteq> close_slot P y"
      by metis
    then show ?thesis by (auto simp del: set_upto)
  qed
  have "distinct (map (open_slot P) [1..n] @ map (close_slot P) [1..n])"
    using i1 i2 dj by (simp add: distinct_map)
  then have lf: "langford n P" using lp b by (simp add: langford_def)
  from pl obtain sd where sd: "sides_ok n (avail_vals n a) (pend n o0) (pend n o1) ?cl sd"
    by (auto simp: planar_ok_def)
  let ?sdl = "map (\<lambda>v. sd (v - 1)) [1..n]"
  have nth: "\<And>v. v \<in> set [1..n] \<Longrightarrow> ?sdl ! nat (v - 1) = sd (v - 1)"
  proof -
    fix v assume v: "v \<in> set [1..n]"
    then have "nat (v - 1) < length [1..n]" by auto
    moreover have "[1..n] ! nat (v - 1) = v" using v by (simp add: nth_upto)
    ultimately show "?sdl ! nat (v - 1) = sd (v - 1)" by (simp del: upto.simps)
  qed
  have "set ?sdl \<subseteq> {0, 1}"
  proof
    fix x assume "x \<in> set ?sdl"
    then obtain v where v: "v \<in> set [1..n]" "x = sd (v - 1)" by (auto simp del: upto.simps)
    then show "x \<in> {0, 1}" using sides_okD(1)[OF sd mem[OF v(1)]] by auto
  qed
  then have e: "?sdl \<in> set (List.n_lists (nat n) [0, 1])"
    using n by (simp add: set_n_lists)
  have nc: "noncrossing n P ?sdl"
    unfolding noncrossing_def
  proof (intro ballI impI)
    fix v v' assume v: "v \<in> set [1..n]" "v' \<in> set [1..n]"
      and "?sdl ! nat (v - 1) = ?sdl ! nat (v' - 1)"
    then have "sd (v - 1) = sd (v' - 1)" using nth by simp
    then show "\<not> crosses (open_slot P v, close_slot P v) (open_slot P v', close_slot P v')"
      using sides_okD(5)[OF sd mem[OF v(1)] mem[OF v(2)]] by (simp add: cs os)
  qed
  have fs: "\<forall>v\<in>set [1..n]. open_slot P v = 0 \<longrightarrow> ?sdl ! nat (v - 1) = 0"
  proof (intro ballI impI)
    fix v assume v: "v \<in> set [1..n]" and "open_slot P v = 0"
    then show "?sdl ! nat (v - 1) = 0" using sides_okD(2)[OF sd mem[OF v]] nth[OF v] by (simp add: os)
  qed
  have pf: "planar_first n P" unfolding planar_first_def
    by (rule bexI[OF _ e]) (use nc fs in simp)
  have "0 \<in> closed_vals n (avail_vals n a)" unfolding C using n by simp
  then have "close_slot P 1 \<le> n" using arcs_okD0[OF ar] by (simp add: cs)
  then show "recorded_ok n P" using lf pf by (simp add: recorded_ok_def)
qed

lemma stack_ok_fields:
  assumes "availability s' = availability s" "opens s' = opens s" "pos s' = pos s"
  shows "stack_ok n s' fs = stack_ok n s fs"
  by (induction fs) (simp_all add: frame_inv_def assms)

lemma stack_ok_frames: "stack_ok n s fs \<Longrightarrow> f \<in> set fs \<Longrightarrow> frame_inv n s f"
  by (induction fs) auto

lemma stack_ok_push:
  assumes "stack_ok n s rest"
    and "\<forall>c\<in>set cs. fst c = K \<and> frame_inv n s c"
    and "\<forall>g\<in>set rest. fst g \<le> K \<and>
           avail_vals n (availability s ! nat K) \<subseteq> avail_vals n (availability s ! nat (fst g))"
    and "int (length cs) + int (length rest) \<le> 3 * K + 1"
  shows "stack_ok n s (cs @ rest)"
  using assms(2,4)
proof (induction cs)
  case Nil then show ?case using assms(1) by simp
next
  case (Cons c cs)
  have "stack_ok n s (cs @ rest)" using Cons by simp
  moreover have "\<forall>g\<in>set (cs @ rest). fst g \<le> fst c \<and>
      avail_vals n (availability s ! nat (fst c)) \<subseteq> avail_vals n (availability s ! nat (fst g))"
    using Cons.prems(1) assms(3) by auto
  ultimately show ?case using Cons.prems by simp
qed

lemma step_shape:
  assumes n: "valid_n n" and inv: "state_inv n s" and st: "stack s = (k, m, d, no) # rest"
    and pl: "place n k m d (pos s, availability s ! nat k, opens s ! nat (2 * k),
               opens s ! nat (2 * k + 1), no) = (P', a', o0', o1', no')"
  shows "\<exists>s'. step n W t s = Inr s' \<and> state_inv n s' \<and>
           node_of s' (k + 1) = (P', a', o0', o1') \<and> same_below n k s s' \<and>
           (if k + 1 = 2 * n then stack s' = rest \<and> results s' = results s @ [P']
            else if not_mine n W t (k + 1) a' o0' o1' then stack s' = rest \<and> results s' = results s
            else stack s' = rev (children n (k + 1) a' no' o0' o1') @ rest \<and> results s' = results s)"
proof -
  from n have n31: "1 \<le> n" "n \<le> 31" by (simp_all add: valid_n_def kMaxN_def)
  let ?a = "availability s ! nat k"
  let ?p0 = "opens s ! nat (2 * k)"
  let ?p1 = "opens s ! nat (2 * k + 1)"
  from inv have La: "int (length (availability s)) = 2 * n + 1"
    and Lo: "int (length (opens s)) = 4 * n + 2" and Lp: "int (length (pos s)) = n"
    and so: "stack_ok n s ((k, m, d, no) # rest)"
    and res: "\<forall>P\<in>set (results s). recorded_ok n P"
    by (simp_all add: state_inv_def st)
  from so have nd: "node_ok n k no ?a ?p0 ?p1 (pos s)"
    and dc: "decision_ok n k m d no ?a ?p0 ?p1"
    and ord: "\<forall>g\<in>set rest. fst g \<le> k \<and>
         avail_vals n ?a \<subseteq> avail_vals n (availability s ! nat (fst g))"
    and len: "int (length rest) + 1 \<le> 3 * k + 1" and sr: "stack_ok n s rest"
    by (simp_all add: frame_inv_def)
  from dc have k: "0 \<le> k" "k < 2 * n" and mr: "m = - 1 \<or> (0 \<le> m \<and> m < n)"
    by (auto simp: decision_ok_def split: if_splits)
  have k1: "s8 (k + 1) = k + 1" using k n31 by (intro s8_id) auto
  note np = node_ok_place[OF n nd dc pl]
  define s1 where "s1 = s\<lparr>availability := (availability s)[nat (k + 1) := a'], pos := P',
      opens := (opens s)[nat (2 * k + 2) := o0', nat (2 * k + 3) := o1']\<rparr>"
  have LP': "int (length P') = n" using np(1) by (simp add: node_ok_def)
  have f1: "availability s1 = (availability s)[nat (k + 1) := a']" "pos s1 = P'"
    "opens s1 = (opens s)[nat (2 * k + 2) := o0', nat (2 * k + 3) := o1']"
    "results s1 = results s"
    by (simp_all add: s1_def)
  have lv: "availability s1 ! nat (k + 1) = a'" "opens s1 ! nat (2 * (k + 1)) = o0'"
    "opens s1 ! nat (2 * (k + 1) + 1) = o1'"
  proof -
    show "availability s1 ! nat (k + 1) = a'" using La k by (simp add: f1)
    have "nat (2 * k + 2) < length (opens s)" "nat (2 * k + 3) < length (opens s)"
      "nat (2 * k + 2) \<noteq> nat (2 * k + 3)" using Lo k by auto
    moreover have "nat (2 * (k + 1)) = nat (2 * k + 2)" "nat (2 * (k + 1) + 1) = nat (2 * k + 3)"
      by simp_all
    ultimately show "opens s1 ! nat (2 * (k + 1)) = o0'" "opens s1 ! nat (2 * (k + 1) + 1) = o1'"
      by (simp_all add: f1)
  qed
  have low: "\<forall>i. 0 \<le> i \<and> i \<le> k \<longrightarrow> availability s1 ! nat i = availability s ! nat i \<and>
           opens s1 ! nat (2 * i) = opens s ! nat (2 * i) \<and>
           opens s1 ! nat (2 * i + 1) = opens s ! nat (2 * i + 1)"
  proof (intro allI impI)
    fix i assume "0 \<le> i \<and> i \<le> k"
    then have "nat i \<noteq> nat (k + 1)" "nat (2 * i) \<noteq> nat (2 * k + 2)" "nat (2 * i) \<noteq> nat (2 * k + 3)"
      "nat (2 * i + 1) \<noteq> nat (2 * k + 2)" "nat (2 * i + 1) \<noteq> nat (2 * k + 3)" by auto
    then show "availability s1 ! nat i = availability s ! nat i \<and>
           opens s1 ! nat (2 * i) = opens s ! nat (2 * i) \<and>
           opens s1 ! nat (2 * i + 1) = opens s ! nat (2 * i + 1)"
      by (simp add: f1)
  qed
  have lp1: "length (pos s1) = length (pos s)" using LP' Lp by (simp add: f1)
  have sr1: "stack_ok n s1 rest"
    by (rule stack_ok_rest[OF sr ord low lp1]) (use np(3) in \<open>simp add: f1\<close>)
  have len1: "int (length (availability s1)) = 2 * n + 1" "int (length (opens s1)) = 4 * n + 2"
    "int (length (pos s1)) = n" using La Lo LP' by (simp_all add: f1)
  have nd1: "node_ok n (k + 1) no' (availability s1 ! nat (k + 1)) (opens s1 ! nat (2 * (k + 1)))
      (opens s1 ! nat (2 * (k + 1) + 1)) (pos s1)"
    unfolding lv f1(2) by (rule np(1))
  have guards: "\<not> (k < 0 \<or> int (length (opens s)) \<le> 2 * k + 3 \<or> int (length (availability s)) \<le> k)"
    "\<not> (0 \<le> m \<and> int (length (pos s)) \<le> m)"
    "\<not> (s8 (k + 1) < 0 \<or> int (length (availability s)) \<le> s8 (k + 1))"
    "\<not> (k + 1 < 0 \<or> int (length (availability s)) \<le> k + 1)"
    using k mr La Lo Lp k1 by auto
  have stp: "step n W t s =
      (if k + 1 = 2 * n then Inr (s1\<lparr>stack := rest, results := results s @ [P']\<rparr>)
       else if not_mine n W t (k + 1) a' o0' o1' then Inr (s1\<lparr>stack := rest\<rparr>)
       else (case pushes n (children n (k + 1) a' no' o0' o1') rest of
               Inl e \<Rightarrow> Inl e | Inr st \<Rightarrow> Inr (s1\<lparr>stack := st\<rparr>)))"
    unfolding step_def st s1_def
    by (simp only: list.case prod.case guards if_False pl k1 Let_def)
  have nof: "node_of s1 (k + 1) = (P', a', o0', o1')"
    unfolding node_of_def lv f1(2) by simp
  have sb: "same_below n k s s1"
    unfolding same_below_def using low lp1 np(3) by (simp add: f1(2))
  have upd: "\<And>st rs. node_of (s1\<lparr>stack := st, results := rs\<rparr>) (k + 1) = node_of s1 (k + 1)"
    "\<And>st. node_of (s1\<lparr>stack := st\<rparr>) (k + 1) = node_of s1 (k + 1)"
    "\<And>st rs. same_below n k s (s1\<lparr>stack := st, results := rs\<rparr>) = same_below n k s s1"
    "\<And>st. same_below n k s (s1\<lparr>stack := st\<rparr>) = same_below n k s s1"
    by (simp_all add: node_of_def same_below_def)
  show ?thesis
  proof (cases "k + 1 = 2 * n")
    case True
    have "recorded_ok n P'" using node_ok_final(1)[OF n31(1)] np(1) True by simp
    then have "state_inv n (s1\<lparr>stack := rest, results := results s @ [P']\<rparr>)"
      using len1 sr1 res stack_ok_fields[of "s1\<lparr>stack := rest, results := results s @ [P']\<rparr>" s1 n rest]
      by (simp add: state_inv_def)
    then show ?thesis using stp True nof sb upd f1(4) by simp
  next
    case False
    then have k2: "k + 1 < 2 * n" using k by simp
    show ?thesis
    proof (cases "not_mine n W t (k + 1) a' o0' o1'")
      case True
      have "state_inv n (s1\<lparr>stack := rest\<rparr>)"
        using len1 sr1 res stack_ok_fields[of "s1\<lparr>stack := rest\<rparr>" s1 n rest]
        by (simp add: state_inv_def f1)
      then show ?thesis using stp True False nof sb upd f1(4) by simp
    next
      case nm: False
      let ?cs = "children n (k + 1) a' no' o0' o1'"
      have lc: "int (length ?cs) \<le> 4"
        using length_children[of n "k + 1" a' no' o0' o1'] by linarith
      then have cap: "4 * (int (length rest) + int (length ?cs)) \<le> 24 * n"
        using len k2 by simp
      then have pu: "pushes n ?cs rest = Inr (rev ?cs @ rest)" by (simp add: pushes_def)
      have kk: "1 \<le> k + 1" using k by simp
      have np1: "node_ok n (k + 1) no' a' o0' o1' P'" by (rule np(1))
      have fr: "\<forall>c\<in>set (rev ?cs). fst c = k + 1 \<and> frame_inv n s1 c"
      proof
        fix c assume c: "c \<in> set (rev ?cs)"
        obtain k' m' d' no'' where ce: "c = (k', m', d', no'')" by (cases c) auto
        then have "(k', m', d', no'') \<in> set ?cs" using c by simp
        from children_ok[OF n np1 kk k2 this]
        have dk: "decision_ok n (k + 1) m' d' no' a' o0' o1'" and e: "k' = k + 1" "no'' = no'"
          by simp_all
        have "frame_inv n s1 (k + 1, m', d', no')"
          unfolding frame_inv_def prod.case lv f1(2) using np1 dk by simp
        then show "fst c = k + 1 \<and> frame_inv n s1 c" by (simp add: ce e)
      qed
      have od: "\<forall>g\<in>set rest. fst g \<le> k + 1 \<and>
           avail_vals n (availability s1 ! nat (k + 1)) \<subseteq> avail_vals n (availability s1 ! nat (fst g))"
      proof
        fix g assume g: "g \<in> set rest"
        have g0: "0 \<le> fst g" using frame_inv_k[OF stack_ok_frames[OF sr g]] by simp
        have gk: "fst g \<le> k" and sub: "avail_vals n ?a \<subseteq> avail_vals n (availability s ! nat (fst g))"
          using ord g by auto
        have "availability s1 ! nat (fst g) = availability s ! nat (fst g)"
          using low g0 gk by blast
        then show "fst g \<le> k + 1 \<and>
           avail_vals n (availability s1 ! nat (k + 1)) \<subseteq> avail_vals n (availability s1 ! nat (fst g))"
          using gk sub np(2) by (simp add: lv)
      qed
      have "int (length (rev ?cs)) + int (length rest) \<le> 3 * (k + 1) + 1"
        using lc len by simp
      from stack_ok_push[OF sr1 fr od this]
      have "state_inv n (s1\<lparr>stack := rev ?cs @ rest\<rparr>)"
        using len1 res stack_ok_fields[of "s1\<lparr>stack := rev ?cs @ rest\<rparr>" s1 n "rev ?cs @ rest"]
        by (simp add: state_inv_def f1)
      then show ?thesis using stp nm False pu nof sb upd f1(4) by simp
    qed
  qed
qed

lemma step_inv:
  assumes n: "valid_n n" and inv: "state_inv n s" and st: "stack s = (k, m, d, no) # rest"
  shows "\<exists>s'. step n W t s = Inr s' \<and> state_inv n s'"
proof -
  obtain P' a' o0' o1' no' where
    "place n k m d (pos s, availability s ! nat k, opens s ! nat (2 * k),
       opens s ! nat (2 * k + 1), no) = (P', a', o0', o1', no')"
    by (metis prod_cases5)
  from step_shape[OF assms this, of W t] show ?thesis by blast
qed

lemma init_inv:
  assumes n: "valid_n n" and sz: "declared_sizes n av ps os"
  shows "state_inv n ((start_state av ps os n)\<lparr>stack := [(0, - 1, 0, 0)]\<rparr>)"
proof -
  from n have n31: "1 \<le> n" "n \<le> 31" by (simp_all add: valid_n_def kMaxN_def)
  from sz have l: "int (length av) = 2 * n + 1" "int (length ps) = n" "int (length os) = 4 * n + 2"
    by (simp_all add: declared_sizes_def)
  let ?a = "s32 (msb n OR (msb n - 1))"
  let ?s = "start_state av ps os n"
  have ln: "0 < length av" "1 < length os" "0 < length os" using n31 l by auto
  have av: "availability ?s ! nat 0 = ?a" using ln by (simp add: start_state_def)
  have o: "opens ?s ! nat (2 * 0) = 0" "opens ?s ! nat (2 * 0 + 1) = 0"
    using ln by (simp_all add: start_state_def nth_list_update)
  have w0: "word_ok (2 * n) 0" by (simp add: word_ok_def)
  have "node_ok n 0 0 ?a 0 0 (pos ?s)"
    using avail_init[OF n31] w0 abs_ok_init[OF n31(1)] l by (simp add: node_ok_def start_state_def)
  moreover have "decision_ok n 0 (- 1) 0 0 ?a 0 0" using n31 by (simp add: decision_ok_def)
  ultimately have "frame_inv n (?s\<lparr>stack := [(0, - 1, 0, 0)]\<rparr>) (0, - 1, 0, 0)"
    unfolding frame_inv_def prod.case using av o by simp
  then show ?thesis using n31 l by (simp add: state_inv_def start_state_def)
qed

lemma zero_sizes:
  "0 \<le> n \<Longrightarrow> declared_sizes n (replicate (nat (2 * n + 1)) 0) (replicate (nat n) 0)
     (replicate (nat (4 * n + 2)) 0)"
  by (simp add: declared_sizes_def)

lemma reachable_inv: "reachable n W t s \<Longrightarrow> valid_n n \<Longrightarrow> state_inv n s"
proof (induction rule: reachable.induct)
  case (reach_start av ps os st)
  then have "st = [(0, - 1, 0, 0)]" by (simp add: pushes_def split: if_splits)
  then show ?case using init_inv[OF reach_start.prems reach_start.hyps(1)] by simp
next
  case (reach_step s s')
  obtain k m d no rest where "stack s = (k, m, d, no) # rest"
    using reach_step.hyps(2) by (cases "stack s") auto
  from step_inv[OF reach_step.prems reach_step.IH[OF reach_step.prems] this, of W t] show ?case
    using reach_step.hyps(3) by simp
qed

lemma run_inv:
  "valid_n n \<Longrightarrow> state_inv n s \<Longrightarrow> \<exists>s'. run n W t s = Inr s' \<and> state_inv n s' \<and> stack s' = []"
proof (induction n W t s rule: run.induct)
  case (1 n W t s)
  show ?case
  proof (cases "stack s = []")
    case True then show ?thesis using "1.prems" by simp
  next
    case False
    then obtain k m d no rest where "stack s = (k, m, d, no) # rest"
      by (cases "stack s") auto
    from step_inv[OF "1.prems" this, of W t] obtain s1 where
      s1: "step n W t s = Inr s1" "state_inv n s1" by blast
    from "1.IH"[OF False s1(1) "1.prems"(1) s1(2)] show ?thesis using False s1(1) by simp
  qed
qed

lemma dfs_from_ok:
  assumes "valid_n n" and "declared_sizes n av ps os"
  shows "\<exists>rs. dfs_from av ps os n W t = Inr rs \<and> (\<forall>P\<in>set rs. recorded_ok n P)"
proof -
  have p: "pushes n [(0, - 1, 0, 0)] [] = Inr [(0, - 1, 0, 0)]"
    using assms by (simp add: pushes_def valid_n_def)
  from run_inv[OF assms(1) init_inv[OF assms], of W t] obtain s' where
    "run n W t ((start_state av ps os n)\<lparr>stack := [(0, - 1, 0, 0)]\<rparr>) = Inr s'" "state_inv n s'"
    by blast
  then show ?thesis by (simp add: dfs_from_def p state_inv_def)
qed

lemma dfs_ok:
  assumes "valid_n n"
  shows "\<exists>rs. dfs n W t = Inr rs \<and> (\<forall>P\<in>set rs. recorded_ok n P)"
  unfolding dfs_def using assms by (intro dfs_from_ok zero_sizes) (simp_all add: valid_n_def)

lemma iterate_reachable:
  "reachable n W t s \<Longrightarrow> iterate i n W t s = Inr s' \<Longrightarrow> reachable n W t s'"
proof (induction i arbitrary: s)
  case 0 then show ?case by simp
next
  case (Suc i)
  show ?case
  proof (cases "stack s = []")
    case True then show ?thesis using Suc.prems by simp
  next
    case False
    then obtain s1 where s1: "step n W t s = Inr s1" "iterate i n W t s1 = Inr s'"
      using Suc.prems(2) by (auto split: sum.splits)
    have "reachable n W t s1" by (rule reach_step[OF Suc.prems(1) False s1(1)])
    then show ?thesis using Suc.IH s1(2) by blast
  qed
qed

lemma state_after_reachable:
  assumes "state_after n W t i = Inr s"
  shows "reachable n W t s"
proof -
  from assms obtain st where st: "pushes n [(0, - 1, 0, 0)] [] = Inr st"
    and it: "iterate i n W t ((init_state n)\<lparr>stack := st\<rparr>) = Inr s"
    by (auto simp: state_after_def split: sum.splits)
  from st have "0 \<le> n" by (simp add: pushes_def split: if_splits)
  from reach_start[OF zero_sizes[OF this] st, of W t]
  have "reachable n W t ((init_state n)\<lparr>stack := st\<rparr>)" by (simp add: init_state_def)
  then show ?thesis using it by (rule iterate_reachable)
qed

lemma reachable_frame:
  "valid_n n \<Longrightarrow> reachable n W t s \<Longrightarrow> f \<in> set (stack s) \<Longrightarrow> frame_inv n s f"
  using reachable_inv[of n W t s] stack_ok_frames[of n s "stack s" f] by (simp add: state_inv_def)

lemma collect_mem:
  "collect rs = Inr xs \<Longrightarrow> x \<in> set xs \<Longrightarrow> \<exists>ys. Inr ys \<in> set rs \<and> x \<in> set ys"
proof (induction rs arbitrary: xs)
  case Nil then show ?case by simp
next
  case (Cons r rs)
  then show ?case by (fastforce split: sum.splits)
qed

lemma planar_first_planar: "planar_first n P \<Longrightarrow> planar n P"
  unfolding planar_first_def planar_def by blast

text \<open>
  C2: every entry of the ledger is a Langford arrangement of \<open>1, \<dots>, n\<close> over the slots
  \<open>0, \<dots>, 2n - 1\<close> (the value \<open>v\<close> sits at its closing slot and at its opening slot,
  \<open>v\<close> slots apart, inside the range, and the \<open>2n\<close> slots taken are pairwise distinct), and
  its arcs can be given sides so that no two arcs of one side cross.
\<close>

theorem recorded_solutions_valid:
  assumes "valid_n n" and "ledger_with dfs W n = Inr rs" and "P \<in> set rs"
  shows "langford n P \<and> planar n P"
proof -
  from collect_mem[OF assms(2)[unfolded ledger_with_def] assms(3)]
  obtain ys where "Inr ys \<in> set (map (dfs n W) [0..W - 1])" "P \<in> set ys" by blast
  then obtain t where t: "dfs n W t = Inr ys" by auto
  from dfs_ok[OF assms(1), of W t] t have "recorded_ok n P" using \<open>P \<in> set ys\<close> by auto
  then show ?thesis by (simp add: recorded_ok_def planar_first_planar)
qed

theorem recorded_solutions_valid_witness:
  "valid_n 3 \<and> ledger_with dfs 1 3 = Inr [[3, 5, 4]] \<and> [3, 5, 4] \<in> set [[3, 5, 4 :: int]] \<and>
   langford 3 [3, 5, 4] \<and> planar 3 [3, 5, 4]"
proof -
  have v: "valid_n 3" by (simp add: valid_n_def kMaxN_def)
  have l: "ledger_with dfs 1 3 = Inr [[3, 5, 4]]" by code_simp
  have m: "[3, 5, 4] \<in> set [[3, 5, 4 :: int]]" by simp
  show ?thesis using v l m recorded_solutions_valid[OF v l m] by simp
qed

lemma frame_invD:
  assumes "frame_inv n s (k, m, d, no)"
  shows "node_ok n k no (availability s ! nat k) (opens s ! nat (2 * k)) (opens s ! nat (2 * k + 1)) (pos s)"
    and "decision_ok n k m d no (availability s ! nat k) (opens s ! nat (2 * k)) (opens s ! nat (2 * k + 1))"
  using assms by (simp_all add: frame_inv_def)

lemma finite_pend: "finite (pend n w)"
  by (rule finite_subset[of _ "{0..<2 * n}"]) (auto simp: pend_def)

lemma finite_avail_vals: "finite (avail_vals n a)"
  by (rule finite_subset[of _ "{0..<n}"]) (auto simp: avail_vals_def)

lemma avail_eq_empty:
  assumes "word_ok n a" "avail_vals n a = {}"
  shows "a = 0"
proof (rule bit_eqI)
  fix i
  { assume bi: "bit a i"
    then have "int i < n" using word_ok_bit[OF assms(1)] by blast
    then have "int i \<in> avail_vals n a" using bi by (simp add: avail_vals_def)
    then have False using assms(2) by simp }
  then show "bit a i = bit (0::int) i" by auto
qed

text \<open>
  C6: a close frame \<open>(k, m, d, _)\<close> waiting on the stack was computed from the word
  \<open>openings[d]\<close> of its node, which the array \<open>open\<close> still holds at index \<open>2k + d\<close>. That
  word has a pending slot; \<open>m\<close> is \<open>offset + ffsll\<close> with nothing lost in the two
  conversions to \<open>int8_t\<close>; with \<open>k'\<close> the most recent (largest) pending slot of the side,
  the value \<open>m + 1\<close> is \<open>k - k' - 1\<close>; and \<open>place_macro\<close> stores \<open>k\<close> in \<open>pos[m]\<close>, so that
  \<open>k'\<close> is the closing slot minus the value minus 1.
\<close>

theorem close_value_spacing:
  assumes "valid_n n" and "reachable n W t s" and "(k, m, d, no) \<in> set (stack s)" and "0 \<le> m"
  shows "pend n (opens s ! nat (2 * k + d)) \<noteq> {} \<and>
         m = s8 (s8 (k - 2 * n - 2) + ffsll (opens s ! nat (2 * k + d))) \<and>
         m + 1 = k - Max (pend n (opens s ! nat (2 * k + d))) - 1 \<and>
         fst (place n k m d (pos s, availability s ! nat k, opens s ! nat (2 * k),
                opens s ! nat (2 * k + 1), no)) ! nat m = k \<and>
         Max (pend n (opens s ! nat (2 * k + d))) = k - (m + 1) - 1"
proof -
  from assms(1) have n31: "1 \<le> n" "n \<le> 31" by (simp_all add: valid_n_def kMaxN_def)
  let ?a = "availability s ! nat k"
  let ?o0 = "opens s ! nat (2 * k)"
  let ?o1 = "opens s ! nat (2 * k + 1)"
  let ?w = "opens s ! nat (2 * k + d)"
  note fi = frame_invD[OF reachable_frame[OF assms(1-3)]]
  from fi(2) assms(4) have d: "d = 0 \<or> d = 1" and k: "1 \<le> k" "k < 2 * n" and m: "m < n"
    and wne: "(if d = 0 then ?o0 else ?o1) \<noteq> 0"
    and mf: "m + 1 = k - (2 * n - ffsll (if d = 0 then ?o0 else ?o1)) - 1"
    by (auto simp: decision_ok_def split: if_splits)
  have we: "(if d = 0 then ?o0 else ?o1) = ?w" using d by auto
  from fi(1) have "word_ok (2 * n) ?o0" "word_ok (2 * n) ?o1" and lp: "int (length (pos s)) = n"
    by (simp_all add: node_ok_def)
  then have w: "word_ok (2 * n) ?w" using d by auto
  have wz: "?w \<noteq> 0" using wne we by simp
  have n32: "n \<le> 32" using n31 by simp
  note pc = pend_close[OF w wz n32]
  have mx: "Max (pend n ?w) = 2 * n - ffsll ?w"
    by (rule Max_eqI) (use pc(1,2) finite_pend in auto)
  have off: "s8 (k - 2 * n - 2) = k - 2 * n - 2" using k n31 by (intro s8_id) auto
  have mm: "s8 (k - 2 * n - 2 + ffsll ?w) = k - 2 * n - 2 + ffsll ?w"
    using k n31 pc(5) by (intro s8_id) auto
  have pm: "fst (place n k m d (pos s, ?a, ?o0, ?o1, no)) ! nat m = k"
    using assms(4) m lp by (simp add: place_def)
  show ?thesis using pc(1) mx off mm mf we pm by auto
qed

theorem close_value_spacing_witness:
  "valid_n 3 \<and>
   reachable 3 1 0 \<lparr>availability = [7, 7, 7, 7, 0, 0, 0], pos = [0, 0, 0],
        opens = [0, 0, 32, 0, 48, 0, 48, 8, 0, 0, 0, 0, 0, 0],
        stack = [(3, 0, 0, 3), (1, - 1, 1, 1)], results = []\<rparr> \<and>
   pend 3 48 = {0, 1} \<and> (0::int) = s8 (s8 (3 - 2 * 3 - 2) + ffsll 48) \<and>
   (0::int) + 1 = 3 - Max (pend 3 48) - 1"
proof -
  let ?s = "\<lparr>availability = [7, 7, 7, 7, 0, 0, 0], pos = [0, 0, 0],
        opens = [0, 0, 32, 0, 48, 0, 48, 8, 0, 0, 0, 0, 0, 0],
        stack = [(3, 0, 0, 3), (1, - 1, 1, 1)], results = []\<rparr>"
  have v: "valid_n 3" by (simp add: valid_n_def kMaxN_def)
  have "state_after 3 1 0 4 = Inr ?s" by code_simp
  then have r: "reachable 3 1 0 ?s" by (rule state_after_reachable)
  have f: "(3, 0, 0, 3) \<in> set (stack ?s)" by simp
  have p: "pend 3 48 = {0, 1}" by code_simp
  show ?thesis using v r p close_value_spacing[OF v r f] by simp
qed

text \<open>
  C7: a frame for slot 0 is an open frame of side 0 (the worker starts from the single
  frame \<open>(0, -1, 0, 0)\<close>); slot 0 is never pending on side 1, so only a close of side 0
  can close its pair; a close frame of value index 0 has \<open>k \<le> n\<close>; and every solution
  recorded has its value 1 closed at a slot \<open>\<le> n\<close> and admits sides without crossings
  in which the arc from slot 0 is on side 0.
\<close>

theorem mirror_pruning:
  assumes "valid_n n" and "reachable n W t s"
  shows "state_after n W t 0 = Inr ((init_state n)\<lparr>stack := [(0, - 1, 0, 0)]\<rparr>) \<and>
         (\<forall>(k, m, d, no)\<in>set (stack s).
            (k = 0 \<longrightarrow> m = - 1 \<and> d = 0) \<and> (m = 0 \<longrightarrow> k \<le> n) \<and>
            0 \<notin> pend n (opens s ! nat (2 * k + 1))) \<and>
         (\<forall>P\<in>set (results s). planar_first n P \<and> close_slot P 1 \<le> n)"
proof -
  from assms(1) have n31: "1 \<le> n" "n \<le> 31" by (simp_all add: valid_n_def kMaxN_def)
  have 1: "state_after n W t 0 = Inr ((init_state n)\<lparr>stack := [(0, - 1, 0, 0)]\<rparr>)"
    using n31 by (simp add: state_after_def pushes_def)
  have 2: "\<forall>(k, m, d, no)\<in>set (stack s).
            (k = 0 \<longrightarrow> m = - 1 \<and> d = 0) \<and> (m = 0 \<longrightarrow> k \<le> n) \<and>
            0 \<notin> pend n (opens s ! nat (2 * k + 1))"
  proof (clarify, intro conjI)
    fix k m d no assume f: "(k, m, d, no) \<in> set (stack s)"
    note fi = frame_invD[OF reachable_frame[OF assms f]]
    show "k = 0 \<longrightarrow> m = - 1 \<and> d = 0" "m = 0 \<longrightarrow> k \<le> n"
      using fi(2) by (auto simp: decision_ok_def split: if_splits)
    show "0 \<notin> pend n (opens s ! nat (2 * k + 1))"
      using fi(1) by (simp add: node_ok_def abs_ok_def shape_ok_def)
  qed
  have 3: "\<forall>P\<in>set (results s). planar_first n P \<and> close_slot P 1 \<le> n"
    using reachable_inv[OF assms(2,1)] by (simp add: state_inv_def recorded_ok_def)
  show ?thesis using 1 2 3 by blast
qed

theorem mirror_pruning_witness:
  "valid_n 3 \<and>
   reachable 3 1 0 ((init_state 3)\<lparr>stack := [(0, - 1, 0, 0)]\<rparr>) \<and>
   reachable 3 1 0 \<lparr>availability = [7, 7, 7, 7, 0, 0, 0], pos = [0, 0, 0],
        opens = [0, 0, 32, 0, 48, 0, 48, 8, 0, 0, 0, 0, 0, 0],
        stack = [(3, 0, 0, 3), (1, - 1, 1, 1)], results = []\<rparr> \<and>
   reachable 3 1 0 \<lparr>availability = [7, 7, 7, 7, 6, 2, 0], pos = [3, 5, 4],
        opens = [0, 0, 32, 0, 48, 0, 48, 8, 32, 8, 0, 8, 0, 0],
        stack = [(1, - 1, 1, 1)], results = [[3, 5, 4]]\<rparr> \<and>
   (3::int) \<le> 3 \<and> planar_first 3 [3, 5, 4] \<and> close_slot [3, 5, 4] 1 \<le> 3 \<and> 0 \<notin> pend 3 8"
proof -
  let ?s0 = "(init_state 3)\<lparr>stack := [(0, - 1, 0, 0)]\<rparr>"
  let ?s4 = "\<lparr>availability = [7, 7, 7, 7, 0, 0, 0], pos = [0, 0, 0],
        opens = [0, 0, 32, 0, 48, 0, 48, 8, 0, 0, 0, 0, 0, 0],
        stack = [(3, 0, 0, 3), (1, - 1, 1, 1)], results = []\<rparr>"
  let ?s7 = "\<lparr>availability = [7, 7, 7, 7, 6, 2, 0], pos = [3, 5, 4],
        opens = [0, 0, 32, 0, 48, 0, 48, 8, 32, 8, 0, 8, 0, 0],
        stack = [(1, - 1, 1, 1)], results = [[3, 5, 4]]\<rparr>"
  have v: "valid_n 3" by (simp add: valid_n_def kMaxN_def)
  have "state_after 3 1 0 0 = Inr ?s0" by (simp add: state_after_def pushes_def)
  then have r0: "reachable 3 1 0 ?s0" by (rule state_after_reachable)
  have "state_after 3 1 0 4 = Inr ?s4" by code_simp
  then have r4: "reachable 3 1 0 ?s4" by (rule state_after_reachable)
  have "state_after 3 1 0 7 = Inr ?s7" by code_simp
  then have r7: "reachable 3 1 0 ?s7" by (rule state_after_reachable)
  show ?thesis
    using v r0 r4 r7 mirror_pruning[OF v r0] mirror_pruning[OF v r4] mirror_pruning[OF v r7]
    by simp
qed

text \<open>
  C8: for a frame \<open>(k, m, d, num_open)\<close> on the stack of a reachable state, with the
  availability word and the two openings words of its node: \<open>num_open\<close> counts the open
  decisions among the \<open>k\<close> slots decided (the source never decrements it), so
  \<open>k - num_open\<close> values are assigned; the availability word has \<open>n - (k - num_open)\<close>
  bits set, all below bit \<open>n\<close>; \<open>num_open\<close> is at most \<open>n\<close> and
  \<open>num_open - (k - num_open)\<close> slots are pending; a close frame names an available
  value, whose bit \<open>place_macro\<close> clears; and a frame that completes a path, \<open>k + 1 = 2n\<close>,
  leaves no value available, no slot pending on either side, \<open>num_open = n\<close>, and a
  Langford arrangement in \<open>pos\<close>.
\<close>

theorem search_invariants:
  assumes "valid_n n" and "reachable n W t s" and "(k, m, d, no) \<in> set (stack s)"
  shows "word_ok n (availability s ! nat k) \<and>
         int (card (avail_vals n (availability s ! nat k))) = n - (k - no) \<and>
         0 \<le> no \<and> no \<le> n \<and>
         int (card (pend n (opens s ! nat (2 * k)))) + int (card (pend n (opens s ! nat (2 * k + 1))))
           = no - (k - no) \<and>
         (0 \<le> m \<longrightarrow> m \<in> avail_vals n (availability s ! nat k)) \<and>
         (case place n k m d (pos s, availability s ! nat k, opens s ! nat (2 * k),
                 opens s ! nat (2 * k + 1), no) of
            (P', a', o0', o1', no') \<Rightarrow>
              no' \<le> n \<and>
              (0 \<le> m \<longrightarrow> avail_vals n a' = avail_vals n (availability s ! nat k) - {m}) \<and>
              (k + 1 = 2 * n \<longrightarrow> a' = 0 \<and> o0' = 0 \<and> o1' = 0 \<and> no' = n \<and> langford n P'))"
proof -
  from assms(1) have n31: "1 \<le> n" "n \<le> 31" by (simp_all add: valid_n_def kMaxN_def)
  let ?a = "availability s ! nat k"
  let ?o0 = "opens s ! nat (2 * k)"
  let ?o1 = "opens s ! nat (2 * k + 1)"
  note fi = frame_invD[OF reachable_frame[OF assms]]
  from fi(1) have wa: "word_ok n ?a"
    and sh: "shape_ok n k no (avail_vals n ?a) (pend n ?o0) (pend n ?o1)"
    and cn: "count_ok n k no (avail_vals n ?a) (pend n ?o0) (pend n ?o1)"
    by (simp_all add: node_ok_def abs_ok_def)
  have mA: "0 \<le> m \<longrightarrow> m \<in> avail_vals n ?a"
    using fi(2) by (auto simp: decision_ok_def avail_vals_def split: if_splits)
  obtain P' a' o0' o1' no' where
    pl: "place n k m d (pos s, ?a, ?o0, ?o1, no) = (P', a', o0', o1', no')"
    by (metis prod_cases5)
  note np = node_ok_place[OF assms(1) fi pl]
  have cl: "0 \<le> m \<longrightarrow> avail_vals n a' = avail_vals n ?a - {m}"
  proof
    assume m: "0 \<le> m"
    then have "a' = ?a XOR push_bit (nat m) 1" using pl by (simp add: place_def)
    then show "avail_vals n a' = avail_vals n ?a - {m}"
      using avail_vals_clear(1)[OF wa] mA m by simp
  qed
  have fin: "k + 1 = 2 * n \<longrightarrow> a' = 0 \<and> o0' = 0 \<and> o1' = 0 \<and> no' = n \<and> langford n P'"
  proof
    assume "k + 1 = 2 * n"
    then have nd: "node_ok n (2 * n) no' a' o0' o1' P'" using np(1) by simp
    note f = node_ok_final[OF n31(1) nd]
    have "word_ok n a'" using nd by (simp add: node_ok_def)
    then have "a' = 0" using f(2) by (rule avail_eq_empty)
    then show "a' = 0 \<and> o0' = 0 \<and> o1' = 0 \<and> no' = n \<and> langford n P'"
      using f by (simp add: recorded_ok_def)
  qed
  show ?thesis
    using wa sh cn mA np(4) cl fin unfolding pl prod.case
    by (simp add: shape_ok_def count_ok_def)
qed

theorem search_invariants_witness:
  "valid_n 3 \<and>
   reachable 3 1 0 \<lparr>availability = [7, 7, 7, 7, 6, 2, 0], pos = [3, 0, 4],
        opens = [0, 0, 32, 0, 48, 0, 48, 8, 32, 8, 0, 8, 0, 0],
        stack = [(5, 1, 1, 3), (1, - 1, 1, 1)], results = []\<rparr> \<and>
   int (card (avail_vals 3 2)) = 3 - (5 - 3) \<and>
   int (card (pend 3 0)) + int (card (pend 3 8)) = 3 - (5 - 3) \<and>
   (1::int) \<in> avail_vals 3 2 \<and>
   place 3 5 1 1 ([3, 0, 4], 2, 0, 8, 3) = ([3, 5, 4], 0, 0, 0, 3) \<and> langford 3 [3, 5, 4]"
proof -
  let ?s = "\<lparr>availability = [7, 7, 7, 7, 6, 2, 0], pos = [3, 0, 4],
        opens = [0, 0, 32, 0, 48, 0, 48, 8, 32, 8, 0, 8, 0, 0],
        stack = [(5, 1, 1, 3), (1, - 1, 1, 1)], results = []\<rparr>"
  have v: "valid_n 3" by (simp add: valid_n_def kMaxN_def)
  have "state_after 3 1 0 6 = Inr ?s" by code_simp
  then have r: "reachable 3 1 0 ?s" by (rule state_after_reachable)
  have f: "(5, 1, 1, 3) \<in> set (stack ?s)" by simp
  have p: "place 3 5 1 1 ([3, 0, 4], 2, 0, 8, 3) = ([3, 5, 4], 0, 0, 0, 3)" by code_simp
  show ?thesis using v r p search_invariants[OF v r f] by (simp add: p)
qed

text \<open>
  C9: in a reachable state the stack holds at most \<open>6n\<close> frames, the arrays have their
  declared sizes, every frame indexes them inside their bounds, the next iteration
  does not leave any array (it does not return \<open>OutOfBounds\<close>), and the worker as a whole
  returns its list of solutions.
\<close>

theorem memory_safety:
  assumes "valid_n n" and "reachable n W t s"
  shows "int (length (stack s)) \<le> 6 * n \<and> 4 * int (length (stack s)) \<le> 24 * n \<and>
         int (length (availability s)) = 2 * n + 1 \<and>
         int (length (opens s)) = 4 * n + 2 \<and>
         int (length (pos s)) = n \<and>
         (\<forall>(k, m, d, no)\<in>set (stack s).
            0 \<le> k \<and> k + 1 \<le> 2 * n \<and> 2 * k + 3 \<le> 4 * n + 1 \<and> - 1 \<le> m \<and> m < n) \<and>
         (stack s \<noteq> [] \<longrightarrow> (\<exists>s'. step n W t s = Inr s')) \<and>
         (\<exists>rs. dfs n W t = Inr rs)"
proof -
  note inv = reachable_inv[OF assms(2,1)]
  have len: "int (length (stack s)) \<le> 6 * n"
  proof (cases "stack s")
    case Nil then show ?thesis using assms(1) by (simp add: valid_n_def)
  next
    case (Cons f fs)
    then have "int (length (stack s)) \<le> 3 * fst f + 1" "frame_inv n s f"
      using inv by (simp_all add: state_inv_def)
    then show ?thesis using frame_inv_k[of n s f] by linarith
  qed
  have fr: "\<forall>(k, m, d, no)\<in>set (stack s).
            0 \<le> k \<and> k + 1 \<le> 2 * n \<and> 2 * k + 3 \<le> 4 * n + 1 \<and> - 1 \<le> m \<and> m < n"
  proof clarify
    fix k m d no assume f: "(k, m, d, no) \<in> set (stack s)"
    note fi = frame_invD[OF reachable_frame[OF assms f]]
    show "0 \<le> k \<and> k + 1 \<le> 2 * n \<and> 2 * k + 3 \<le> 4 * n + 1 \<and> - 1 \<le> m \<and> m < n"
      using fi(2) assms(1) by (auto simp: decision_ok_def valid_n_def split: if_splits)
  qed
  have st: "stack s \<noteq> [] \<longrightarrow> (\<exists>s'. step n W t s = Inr s')"
  proof
    assume "stack s \<noteq> []"
    then obtain k m d no rest where "stack s = (k, m, d, no) # rest"
      by (cases "stack s") auto
    from step_inv[OF assms(1) inv this, of W t] show "\<exists>s'. step n W t s = Inr s'" by blast
  qed
  have "\<exists>rs. dfs n W t = Inr rs" using dfs_ok[OF assms(1), of W t] by blast
  then show ?thesis using len fr st inv by (simp add: state_inv_def)
qed

theorem memory_safety_witness:
  "valid_n 3 \<and>
   reachable 3 1 0 \<lparr>availability = [7, 7, 7, 7, 0, 0, 0], pos = [0, 0, 0],
        opens = [0, 0, 32, 0, 48, 0, 48, 8, 0, 0, 0, 0, 0, 0],
        stack = [(3, 0, 0, 3), (1, - 1, 1, 1)], results = []\<rparr> \<and>
   (\<exists>s'. step 3 1 0 \<lparr>availability = [7, 7, 7, 7, 0, 0, 0], pos = [0, 0, 0],
        opens = [0, 0, 32, 0, 48, 0, 48, 8, 0, 0, 0, 0, 0, 0],
        stack = [(3, 0, 0, 3), (1, - 1, 1, 1)], results = []\<rparr> = Inr s') \<and>
   (\<exists>rs. dfs 3 1 0 = Inr rs)"
proof -
  let ?s = "\<lparr>availability = [7, 7, 7, 7, 0, 0, 0], pos = [0, 0, 0],
        opens = [0, 0, 32, 0, 48, 0, 48, 8, 0, 0, 0, 0, 0, 0],
        stack = [(3, 0, 0, 3), (1, - 1, 1, 1)], results = []\<rparr>"
  have v: "valid_n 3" by (simp add: valid_n_def kMaxN_def)
  have "state_after 3 1 0 4 = Inr ?s" by code_simp
  then have r: "reachable 3 1 0 ?s" by (rule state_after_reachable)
  show ?thesis using v r memory_safety[OF v r] by simp
qed

text \<open>
  The quantities that C10 lists are exact for \<open>1 \<le> n \<le> 31\<close>: the constants \<open>msb\<close>,
  \<open>nn1\<close> and the initial availability word fit their types, the four fields of every
  frame are \<open>int8_t\<close> values in the ranges given, the shifts of \<open>place_macro\<close> stay
  inside the word, and the conversions to \<open>int8_t\<close> of \<open>k + 1\<close>, \<open>num_open + 1\<close>, the
  offset and \<open>offset + ffsll\<close> change nothing.
\<close>

lemma search_arithmetic_exact:
  assumes "valid_n n" and "reachable n W t s" and "(k, m, d, no) \<in> set (stack s)"
  shows "0 \<le> n - 1 \<and> n - 1 < 31 \<and> 0 \<le> 2 * n - 1 \<and> 2 * n - 1 < 63 \<and>
         msb n < 2 ^ 31 \<and> nn1 n < 2 ^ 63 \<and>
         s32 (msb n OR (msb n - 1)) = msb n OR (msb n - 1) \<and>
         0 \<le> k \<and> k \<le> 2 * n - 1 \<and> 2 * n \<le> 127 \<and> - 1 \<le> m \<and> m \<le> n - 1 \<and>
         (d = 0 \<or> d = 1) \<and> 0 \<le> no \<and> no \<le> n \<and>
         s8 (k + 1) = k + 1 \<and> (m < 0 \<longrightarrow> s8 (no + 1) = no + 1) \<and>
         s8 (k + 1 - 2 * n - 2) = k + 1 - 2 * n - 2 \<and>
         (case place n k m d (pos s, availability s ! nat k, opens s ! nat (2 * k),
                 opens s ! nat (2 * k + 1), no) of
            (P', a', o0', o1', no') \<Rightarrow>
              0 \<le> a' \<and> a' < 2 ^ 31 \<and> 0 \<le> o0' \<and> o0' < 2 ^ 63 \<and> 0 \<le> o1' \<and> o1' < 2 ^ 63 \<and>
              (o0' \<noteq> 0 \<longrightarrow> s8 (k + 1 - 2 * n - 2 + ffsll o0') = k + 1 - 2 * n - 2 + ffsll o0') \<and>
              (o1' \<noteq> 0 \<longrightarrow> s8 (k + 1 - 2 * n - 2 + ffsll o1') = k + 1 - 2 * n - 2 + ffsll o1'))"
proof -
  from assms(1) have n31: "1 \<le> n" "n \<le> 31" by (simp_all add: valid_n_def kMaxN_def)
  let ?a = "availability s ! nat k"
  let ?o0 = "opens s ! nat (2 * k)"
  let ?o1 = "opens s ! nat (2 * k + 1)"
  note fi = frame_invD[OF reachable_frame[OF assms]]
  from fi(2) have k: "0 \<le> k" "k < 2 * n" and d: "d = 0 \<or> d = 1" and m: "- 1 \<le> m" "m < n"
    by (auto simp: decision_ok_def split: if_splits)
  from fi(1) have no: "0 \<le> no" "no \<le> n" by (simp_all add: node_ok_def abs_ok_def shape_ok_def)
  have p31: "(2::int) ^ nat (n - 1) < 2 ^ 31" using n31 by (intro power_strict_increasing) auto
  have p63: "(2::int) ^ nat (2 * n - 1) < 2 ^ 63" using n31 by (intro power_strict_increasing) auto
  have pn: "(2::int) ^ nat n \<le> 2 ^ 31" using n31 by (intro power_increasing) auto
  have p2n: "(2::int) ^ nat (2 * n) \<le> 2 ^ 63" using n31 by (intro power_increasing) auto
  have c1: "msb n < 2 ^ 31" "nn1 n < 2 ^ 63" using p31 p63 by (simp_all add: msb_def nn1_def)
  have c2: "s32 (msb n OR (msb n - 1)) = msb n OR (msb n - 1)"
  proof -
    have m': "msb n = 2 ^ nat (n - 1)" by (simp add: msb_def)
    have "msb n - 1 = mask (nat (n - 1))" by (simp add: m' mask_eq_exp_minus_1)
    then have b: "\<And>i. bit (msb n OR (msb n - 1)) i \<longleftrightarrow> int i < n"
      using n31 by (auto simp: bit_or_iff bit_mask_iff msb_def bit_exp_iff)
    have "0 \<le> msb n OR (msb n - 1)" by (simp add: m')
    then have "word_ok n (msb n OR (msb n - 1))" by (rule word_okI) (simp add: b)
    then show ?thesis using pn by (simp add: s32_def word_ok_def)
  qed
  have k1: "s8 (k + 1) = k + 1" using k n31 by (intro s8_id) auto
  have n1: "m < 0 \<longrightarrow> s8 (no + 1) = no + 1" using no n31 by (auto intro!: s8_id)
  have off: "s8 (k + 1 - 2 * n - 2) = k + 1 - 2 * n - 2" using k n31 by (intro s8_id) auto
  obtain P' a' o0' o1' no' where
    pl: "place n k m d (pos s, ?a, ?o0, ?o1, no) = (P', a', o0', o1', no')"
    by (metis prod_cases5)
  from node_ok_place(1)[OF assms(1) fi pl]
  have wa: "word_ok n a'" and w0: "word_ok (2 * n) o0'" and w1: "word_ok (2 * n) o1'"
    by (simp_all add: node_ok_def)
  have n32: "n \<le> 32" using n31 by simp
  have r: "0 \<le> a' \<and> a' < 2 ^ 31 \<and> 0 \<le> o0' \<and> o0' < 2 ^ 63 \<and> 0 \<le> o1' \<and> o1' < 2 ^ 63"
    using wa w0 w1 pn p2n unfolding word_ok_def by linarith
  have f0: "o0' \<noteq> 0 \<longrightarrow> s8 (k + 1 - 2 * n - 2 + ffsll o0') = k + 1 - 2 * n - 2 + ffsll o0'"
  proof
    assume "o0' \<noteq> 0"
    from pend_close(5)[OF w0 this n32]
    show "s8 (k + 1 - 2 * n - 2 + ffsll o0') = k + 1 - 2 * n - 2 + ffsll o0'"
      using k n31 by (intro s8_id) auto
  qed
  have f1: "o1' \<noteq> 0 \<longrightarrow> s8 (k + 1 - 2 * n - 2 + ffsll o1') = k + 1 - 2 * n - 2 + ffsll o1'"
  proof
    assume "o1' \<noteq> 0"
    from pend_close(5)[OF w1 this n32]
    show "s8 (k + 1 - 2 * n - 2 + ffsll o1') = k + 1 - 2 * n - 2 + ffsll o1'"
      using k n31 by (intro s8_id) auto
  qed
  show ?thesis
    unfolding pl prod.case using n31 c1 c2 k d m no k1 n1 off r f0 f1 by simp
qed

text \<open>
  C10 fails on the partition hash. For \<open>n = 24\<close> the partition depth is 16. After 15
  iterations every worker pops the frame \<open>(15, -1, 0, 15)\<close>, reaches depth 16 with the
  slots 0 to 15 pending on side 0, and evaluates the \<open>int64_t\<close> expression
  \<open>131071 * (openings[1] - openings[0]) + avail\<close>, whose value is below \<open>-2^63\<close>.
\<close>

theorem hash_overflow_at_24:
  "state_after 24 kMaxThreads 0 15 =
     Inr \<lparr>availability =
            [16777215, 16777215, 16777215, 16777215, 16777215, 16777215,
             16777215, 16777215, 16777215, 16777215, 16777215, 16777215,
             16777215, 16777215, 16777215, 16777215, 0, 0, 0, 0, 0, 0,
             0, 0, 0, 0, 0, 0, 0, 0, 0, 0, 0, 0, 0, 0, 0, 0, 0, 0, 0, 0,
             0, 0, 0, 0, 0, 0, 0],
          pos = [0, 0, 0, 0, 0, 0, 0, 0, 0, 0, 0, 0, 0, 0, 0, 0, 0, 0, 0, 0, 0, 0, 0, 0],
          opens =
            [0, 0, 140737488355328, 0, 211106232532992, 0,
             246290604621824, 0, 263882790666240, 0, 272678883688448,
             0, 277076930199552, 0, 279275953455104, 0,
             280375465082880, 0, 280925220896768, 0, 281200098803712,
             0, 281337537757184, 0, 281406257233920, 0,
             281440616972288, 0, 281457796841472, 0, 281466386776064,
             0, 0, 0, 0, 0, 0, 0, 0, 0, 0, 0, 0, 0, 0, 0, 0, 0, 0, 0,
             0, 0, 0, 0, 0, 0, 0, 0, 0, 0, 0, 0, 0, 0, 0, 0, 0, 0, 0, 0,
             0, 0, 0, 0, 0, 0, 0, 0, 0, 0, 0, 0, 0, 0, 0, 0, 0, 0, 0, 0,
             0, 0, 0, 0, 0, 0, 0, 0],
          stack =
            [(15, - 1, 0, 15), (15, - 1, 1, 15), (14, - 1, 1, 14),
             (13, - 1, 1, 13), (12, - 1, 1, 12), (11, - 1, 1, 11),
             (10, - 1, 1, 10), (9, - 1, 1, 9), (8, - 1, 1, 8),
             (7, - 1, 1, 7), (6, - 1, 1, 6), (5, - 1, 1, 5),
             (4, - 1, 1, 4), (3, - 1, 1, 3), (2, - 1, 1, 2),
             (1, - 1, 1, 1)],
          results = []\<rparr> \<and>
   valid_n 24 \<and> 1 < kMaxThreads \<and> s8 (15 + 1) = k_limit 24 \<and>
   place 24 15 (- 1) 0 ([0, 0, 0, 0, 0, 0, 0, 0, 0, 0, 0, 0, 0, 0, 0, 0, 0, 0, 0, 0, 0, 0, 0, 0],
       16777215, 281466386776064, 0, 15) =
     ([0, 0, 0, 0, 0, 0, 0, 0, 0, 0, 0, 0, 0, 0, 0, 0, 0, 0, 0, 0, 0, 0, 0, 0],
       16777215, 281470681743360, 0, 16) \<and>
   hash_arg 16777215 281470681743360 0 = - 36892643726767161345 \<and>
   hash_arg 16777215 281470681743360 0 < - (2 ^ 63)"
  by code_simp

section \<open>The loop computes the tree recursion; the partition\<close>

lemma not_mine_single [simp]: "\<not> not_mine n 1 t k a o0 o1"
  by (simp add: not_mine_def)

lemma not_mine_off_limit: "k \<noteq> k_limit n \<Longrightarrow> \<not> not_mine n W t k a o0 o1"
  by (simp add: not_mine_def)

lemma sols_past_limit:
  "k_limit n \<le> k \<Longrightarrow> sols fuel n W t (k, m, d, no) nd = sols fuel n 1 0 (k, m, d, no) nd"
proof (induction fuel arbitrary: k m d no nd)
  case 0 then show ?case by (simp add: sols.simps)
next
  case (Suc fuel)
  obtain P a p0 p1 where nd: "nd = (P, a, p0, p1)" by (cases nd) auto
  obtain P' a' o0' o1' no' where pl: "place n k m d (P, a, p0, p1, no) = (P', a', o0', o1', no')"
    by (metis prod_cases5)
  have nm: "\<not> not_mine n W t (k + 1) a' o0' o1'"
    using Suc.prems by (intro not_mine_off_limit) simp
  have "\<And>c. c \<in> set (rev (children n (k + 1) a' no' o0' o1')) \<Longrightarrow>
          sols fuel n W t c (P', a', o0', o1') = sols fuel n 1 0 c (P', a', o0', o1')"
  proof -
    fix c assume "c \<in> set (rev (children n (k + 1) a' no' o0' o1'))"
    then have "fst c = k + 1" using children_depth by simp
    then obtain m' d' no'' where "c = (k + 1, m', d', no'')" by (cases c) auto
    then show "sols fuel n W t c (P', a', o0', o1') = sols fuel n 1 0 c (P', a', o0', o1')"
      using Suc.IH[of "k + 1" m' d' no''] Suc.prems by simp
  qed
  then have "map (\<lambda>c. sols fuel n W t c (P', a', o0', o1')) (rev (children n (k + 1) a' no' o0' o1'))
     = map (\<lambda>c. sols fuel n 1 0 c (P', a', o0', o1')) (rev (children n (k + 1) a' no' o0' o1'))"
    by (intro map_cong) auto
  then have eq: "concat (map (\<lambda>c. sols fuel n W t c (P', a', o0', o1')) (rev (children n (k + 1) a' no' o0' o1')))
     = concat (map (\<lambda>c. sols fuel n 1 0 c (P', a', o0', o1')) (rev (children n (k + 1) a' no' o0' o1')))"
    by (rule arg_cong)
  show ?case by (simp add: sols.simps nd pl nm eq)
qed

lemma hash_range:
  assumes "1 < W" "W < 2 ^ 64"
  shows "0 \<le> hash W a o0 o1" "hash W a o0 o1 < W"
proof -
  have w: "u64 W = W" using assms by (simp add: u64_def)
  show "0 \<le> hash W a o0 o1" "hash W a o0 o1 < W"
    using assms by (simp_all add: hash_def w)
qed

lemma owner_iff:
  assumes "1 < W" "W < 2 ^ 64" "0 \<le> t" "t < W"
  shows "\<not> not_mine n W t (k_limit n) a o0 o1 \<longleftrightarrow> t = hash W a o0 o1"
proof -
  have "u64 t = t" using assms by (simp add: u64_def)
  then show ?thesis using assms by (auto simp: not_mine_def)
qed

lemma sols_union:
  assumes W: "1 \<le> W" "W < 2 ^ 64"
  shows "(\<Union>t\<in>{0..W - 1}. set (sols fuel n W t f nd)) = set (sols fuel n 1 0 f nd)"
proof (cases "W = 1")
  case True then show ?thesis by simp
next
  case False
  then have W1: "1 < W" using W by simp
  have ne: "{0..W - 1} \<noteq> {}" using W by simp
  show ?thesis
  proof (induction fuel arbitrary: f nd)
    case 0 then show ?case by (simp add: sols.simps)
  next
    case (Suc fuel)
    obtain k m d no where f: "f = (k, m, d, no)" by (cases f) auto
    obtain P a p0 p1 where nd: "nd = (P, a, p0, p1)" by (cases nd) auto
    obtain P' a' o0' o1' no' where pl: "place n k m d (P, a, p0, p1, no) = (P', a', o0', o1', no')"
      by (metis prod_cases5)
    let ?cs = "rev (children n (k + 1) a' no' o0' o1')"
    let ?nd = "(P', a', o0', o1')"
    show ?case
    proof (cases "k + 1 = 2 * n")
      case True
      then show ?thesis using ne by (simp add: sols.simps f nd pl)
    next
      case k2: False
      have rhs: "sols (Suc fuel) n 1 0 f nd = concat (map (\<lambda>c. sols fuel n 1 0 c ?nd) ?cs)"
        using k2 by (simp add: sols.simps f nd pl)
      show ?thesis
      proof (cases "k + 1 = k_limit n")
        case True
        let ?h = "hash W a' o0' o1'"
        have h: "?h \<in> {0..W - 1}" using hash_range[OF W1 W(2), of a' o0' o1'] by simp
        have own: "\<And>t. t \<in> {0..W - 1} \<Longrightarrow> \<not> not_mine n W t (k + 1) a' o0' o1' \<longleftrightarrow> t = ?h"
          using owner_iff[OF W1 W(2)] True by simp
        have past: "\<And>c t. c \<in> set ?cs \<Longrightarrow> sols fuel n W t c ?nd = sols fuel n 1 0 c ?nd"
        proof -
          fix c t assume "c \<in> set ?cs"
          then have "fst c = k + 1" using children_depth by simp
          then obtain m' d' no'' where "c = (k + 1, m', d', no'')" by (cases c) auto
          then show "sols fuel n W t c ?nd = sols fuel n 1 0 c ?nd"
            using sols_past_limit[of n "k + 1"] True by simp
        qed
        have mine: "sols (Suc fuel) n W ?h f nd = sols (Suc fuel) n 1 0 f nd"
        proof -
          have "map (\<lambda>c. sols fuel n W ?h c ?nd) ?cs = map (\<lambda>c. sols fuel n 1 0 c ?nd) ?cs"
            by (intro map_cong) (auto simp: past)
          then have eq: "concat (map (\<lambda>c. sols fuel n W ?h c ?nd) ?cs)
              = concat (map (\<lambda>c. sols fuel n 1 0 c ?nd) ?cs)"
            by (rule arg_cong)
          have "\<not> not_mine n W ?h (k + 1) a' o0' o1'" using own[OF h] by simp
          then show ?thesis using k2 by (simp add: sols.simps f nd pl eq)
        qed
        have others: "\<And>t. t \<in> {0..W - 1} \<Longrightarrow> t \<noteq> ?h \<Longrightarrow> sols (Suc fuel) n W t f nd = []"
          using own k2 by (simp add: sols.simps f nd pl)
        have "(\<Union>t\<in>{0..W - 1}. set (sols (Suc fuel) n W t f nd)) = set (sols (Suc fuel) n W ?h f nd)"
        proof
          show "(\<Union>t\<in>{0..W - 1}. set (sols (Suc fuel) n W t f nd)) \<subseteq> set (sols (Suc fuel) n W ?h f nd)"
          proof
            fix x assume "x \<in> (\<Union>t\<in>{0..W - 1}. set (sols (Suc fuel) n W t f nd))"
            then obtain t where t: "t \<in> {0..W - 1}" "x \<in> set (sols (Suc fuel) n W t f nd)" by blast
            then have "t = ?h" using others[OF t(1)] by (cases "t = ?h") simp_all
            then show "x \<in> set (sols (Suc fuel) n W ?h f nd)" using t(2) by simp
          qed
          show "set (sols (Suc fuel) n W ?h f nd) \<subseteq> (\<Union>t\<in>{0..W - 1}. set (sols (Suc fuel) n W t f nd))"
            using h by blast
        qed
        then show ?thesis using mine by simp
      next
        case False
        have nm: "\<And>t. \<not> not_mine n W t (k + 1) a' o0' o1'"
          using False by (intro not_mine_off_limit)
        have lhs: "\<And>t. sols (Suc fuel) n W t f nd = concat (map (\<lambda>c. sols fuel n W t c ?nd) ?cs)"
          using k2 nm by (simp add: sols.simps f nd pl)
        have "(\<Union>t\<in>{0..W - 1}. set (concat (map (\<lambda>c. sols fuel n W t c ?nd) ?cs)))
            = (\<Union>c\<in>set ?cs. \<Union>t\<in>{0..W - 1}. set (sols fuel n W t c ?nd))"
          by auto
        also have "\<dots> = (\<Union>c\<in>set ?cs. set (sols fuel n 1 0 c ?nd))"
          using Suc.IH by simp
        also have "\<dots> = set (concat (map (\<lambda>c. sols fuel n 1 0 c ?nd) ?cs))" by auto
        finally show ?thesis unfolding lhs rhs .
      qed
    qed
  qed
qed

lemma place_pos:
  "place n k m d (P2, a, o0, o1, no) =
     (if 0 \<le> m then P2[nat m := k] else P2, snd (place n k m d (P, a, o0, o1, no)))"
  by (simp add: place_def)

lemma sols_cong:
  assumes n: "valid_n n"
  shows "node_ok n k no a o0 o1 P \<Longrightarrow> decision_ok n k m d no a o0 o1 \<Longrightarrow>
         length P2 = length P \<Longrightarrow>
         \<forall>i\<in>closed_vals n (avail_vals n a). P2 ! nat i = P ! nat i \<Longrightarrow>
         sols fuel n W t (k, m, d, no) (P2, a, o0, o1) = sols fuel n W t (k, m, d, no) (P, a, o0, o1)"
proof (induction fuel arbitrary: k no a o0 o1 P m d P2)
  case 0 then show ?case by (simp add: sols.simps)
next
  case (Suc fuel)
  from n have n31: "1 \<le> n" "n \<le> 31" by (simp_all add: valid_n_def kMaxN_def)
  obtain P' a' o0' o1' no' where pl: "place n k m d (P, a, o0, o1, no) = (P', a', o0', o1', no')"
    by (metis prod_cases5)
  define P2' where "P2' = (if 0 \<le> m then P2[nat m := k] else P2)"
  have pl2: "place n k m d (P2, a, o0, o1, no) = (P2', a', o0', o1', no')"
    using place_pos[of n k m d P2 a o0 o1 no P] by (simp add: pl P2'_def)
  have P': "P' = (if 0 \<le> m then P[nat m := k] else P)"
    using pl by (simp add: place_def split: if_splits)
  note np = node_ok_place[OF n Suc.prems(1,2) pl]
  have lp: "int (length P) = n" using Suc.prems(1) by (simp add: node_ok_def)
  have len: "length P2' = length P'" using Suc.prems(3) by (simp add: P2'_def P')
  from Suc.prems(2) have k: "0 \<le> k" "k < 2 * n" and mr: "m = - 1 \<or> (0 \<le> m \<and> m < n)"
    by (auto simp: decision_ok_def split: if_splits)
  have agree: "\<forall>i\<in>closed_vals n (avail_vals n a'). P2' ! nat i = P' ! nat i"
  proof
    fix i assume i: "i \<in> closed_vals n (avail_vals n a')"
    then have ir: "0 \<le> i" "i < n" by (simp_all add: closed_vals_def)
    show "P2' ! nat i = P' ! nat i"
    proof (cases "0 \<le> m")
      case False
      then have "a' = a" using pl by (simp add: place_def)
      then show ?thesis using i Suc.prems(4) False by (simp add: P2'_def P')
    next
      case True
      then have m: "m < n" using mr by simp
      show ?thesis
      proof (cases "i = m")
        case True
        then show ?thesis using \<open>0 \<le> m\<close> m lp Suc.prems(3) by (simp add: P2'_def P')
      next
        case False
        then have ne: "nat i \<noteq> nat m" using ir True by simp
        have a': "a' = a XOR push_bit (nat m) 1" using pl True by (simp add: place_def)
        have wa: "word_ok n a" using Suc.prems(1) by (simp add: node_ok_def)
        have mA: "m \<in> avail_vals n a"
          using Suc.prems(2) True by (auto simp: decision_ok_def avail_vals_def split: if_splits)
        have "avail_vals n a' = avail_vals n a - {m}"
          using avail_vals_clear(1)[OF wa mA] by (simp add: a')
        then have "i \<in> closed_vals n (avail_vals n a)"
          using i False by (auto simp: closed_vals_def)
        then show ?thesis using Suc.prems(4) ne True by (simp add: P2'_def P')
      qed
    qed
  qed
  show ?case
  proof (cases "k + 1 = 2 * n")
    case True
    then have nd: "node_ok n (2 * n) no' a' o0' o1' P'" using np(1) by simp
    have e: "avail_vals n a' = {}" by (rule node_ok_final(2)[OF n31(1) nd])
    have lp': "int (length P') = n" using nd by (simp add: node_ok_def)
    have "P2' = P'"
    proof (rule nth_equalityI[OF len])
      fix j assume "j < length P2'"
      then have "int j \<in> closed_vals n (avail_vals n a')"
        using len lp' by (simp add: e closed_vals_def)
      from agree[rule_format, OF this] show "P2' ! j = P' ! j" by simp
    qed
    then show ?thesis using True by (simp add: sols.simps pl pl2)
  next
    case False
    then have k2: "k + 1 < 2 * n" using k by simp
    have kk: "1 \<le> k + 1" using k by simp
    let ?cs = "rev (children n (k + 1) a' no' o0' o1')"
    have "map (\<lambda>c. sols fuel n W t c (P2', a', o0', o1')) ?cs
        = map (\<lambda>c. sols fuel n W t c (P', a', o0', o1')) ?cs"
    proof (rule map_cong[OF refl])
      fix c assume cm: "c \<in> set ?cs"
      obtain k' m' d' no'' where c: "c = (k', m', d', no'')" by (cases c) auto
      have c2: "(k', m', d', no'') \<in> set (children n (k + 1) a' no' o0' o1')"
        using cm by (simp add: c)
      from children_ok[OF n np(1) kk k2 c2]
      have dk: "decision_ok n (k + 1) m' d' no' a' o0' o1'" and e: "k' = k + 1" "no'' = no'"
        by simp_all
      show "sols fuel n W t c (P2', a', o0', o1') = sols fuel n W t c (P', a', o0', o1')"
        unfolding c e by (rule Suc.IH[OF np(1) dk len agree])
    qed
    then have "concat (map (\<lambda>c. sols fuel n W t c (P2', a', o0', o1')) ?cs)
        = concat (map (\<lambda>c. sols fuel n W t c (P', a', o0', o1')) ?cs)"
      by (rule arg_cong)
    then show ?thesis using False by (simp add: sols.simps pl pl2)
  qed
qed

lemma same_below_refl: "same_below n K s s"
  by (simp add: same_below_def)

lemma same_below_trans:
  assumes "same_below n K s s1" "same_below n K s1 s2" "0 \<le> K"
  shows "same_below n K s s2"
proof -
  have "availability s1 ! nat K = availability s ! nat K"
    using assms(1,3) by (simp add: same_below_def)
  then show ?thesis using assms(1,2) unfolding same_below_def by simp
qed

lemma same_below_down:
  assumes "same_below n (K + 1) s1 s2"
    and "avail_vals n (availability s1 ! nat (K + 1)) \<subseteq> avail_vals n (availability s1 ! nat K)"
  shows "same_below n K s1 s2"
proof -
  have "closed_vals n (avail_vals n (availability s1 ! nat K))
      \<subseteq> closed_vals n (avail_vals n (availability s1 ! nat (K + 1)))"
    by (rule closed_vals_mono[OF assms(2)])
  then show ?thesis using assms(1) unfolding same_below_def by (simp add: subset_iff)
qed

lemma sols_node_cong:
  assumes "valid_n n" "frame_inv n s f" "same_below n (fst f) s s'"
  shows "sols fuel n W t f (node_of s' (fst f)) = sols fuel n W t f (node_of s (fst f))"
proof -
  obtain k m d no where f: "f = (k, m, d, no)" by (cases f) auto
  note fi = frame_invD[OF assms(2)[unfolded f]]
  have k: "0 \<le> k" using fi(2) by (simp add: decision_ok_def)
  from assms(3) k have eq: "availability s' ! nat k = availability s ! nat k"
    "opens s' ! nat (2 * k) = opens s ! nat (2 * k)"
    "opens s' ! nat (2 * k + 1) = opens s ! nat (2 * k + 1)"
    and l: "length (pos s') = length (pos s)"
    and p: "\<forall>i\<in>closed_vals n (avail_vals n (availability s ! nat k)). pos s' ! nat i = pos s ! nat i"
    by (simp_all add: same_below_def f)
  show ?thesis
    unfolding f fst_conv node_of_def eq by (rule sols_cong[OF assms(1) fi l p])
qed

lemma state_inv_frame: "state_inv n s \<Longrightarrow> f \<in> set (stack s) \<Longrightarrow> frame_inv n s f"
  unfolding state_inv_def using stack_ok_frames by blast

lemma run_frames:
  assumes n: "valid_n n"
  shows "state_inv n s \<Longrightarrow> stack s = fs @ rest \<Longrightarrow> \<forall>f\<in>set fs. fst f = K \<Longrightarrow>
         2 * n - K \<le> int fuel \<Longrightarrow>
         \<exists>s'. run n W t s = run n W t s' \<and> state_inv n s' \<and> stack s' = rest \<and>
              results s' = results s @ concat (map (\<lambda>f. sols fuel n W t f (node_of s K)) fs) \<and>
              same_below n K s s'"
proof (induction fuel arbitrary: s fs rest K)
  case 0
  show ?case
  proof (cases fs)
    case Nil
    then show ?thesis using 0 same_below_refl by auto
  next
    case (Cons f fs')
    then have "f \<in> set (stack s)" using 0 by simp
    then have "frame_inv n s f" using 0(1) state_inv_frame by blast
    then have "fst f < 2 * n" using frame_inv_k by blast
    then show ?thesis using 0 Cons by simp
  qed
next
  case (Suc fuel)
  show ?case using Suc.prems
  proof (induction fs arbitrary: s)
    case Nil
    then show ?case using same_below_refl by auto
  next
    case (Cons f fs')
    obtain k m d no where f: "f = (k, m, d, no)" by (cases f) auto
    have kK: "k = K" using Cons.prems(3) by (simp add: f)
    have st: "stack s = (K, m, d, no) # (fs' @ rest)" using Cons.prems(2) by (simp add: f kK)
    have fin: "\<And>g. g \<in> set (f # fs') \<Longrightarrow> frame_inv n s g"
      using Cons.prems(1,2) state_inv_frame[of n s] by auto
    have fiK: "frame_inv n s (K, m, d, no)" using fin[of f] by (simp add: f kK)
    note fi = frame_invD[OF fiK]
    have K: "0 \<le> K" "K < 2 * n" using frame_inv_k[OF fiK] by simp_all
    obtain P' a' o0' o1' no' where
      pl: "place n K m d (pos s, availability s ! nat K, opens s ! nat (2 * K),
             opens s ! nat (2 * K + 1), no) = (P', a', o0', o1', no')"
      by (metis prod_cases5)
    from step_shape[OF n Cons.prems(1) st pl, of W t] obtain s1 where
      s1: "step n W t s = Inr s1" "state_inv n s1" "node_of s1 (K + 1) = (P', a', o0', o1')"
        "same_below n K s s1"
      and sh: "if K + 1 = 2 * n then stack s1 = fs' @ rest \<and> results s1 = results s @ [P']
            else if not_mine n W t (K + 1) a' o0' o1' then stack s1 = fs' @ rest \<and> results s1 = results s
            else stack s1 = rev (children n (K + 1) a' no' o0' o1') @ fs' @ rest \<and> results s1 = results s"
      by blast
    have r1: "run n W t s = run n W t s1" using st s1(1) by (subst run.simps) simp
    let ?cs = "rev (children n (K + 1) a' no' o0' o1')"
    have sf: "sols (Suc fuel) n W t f (node_of s K) =
        (if K + 1 = 2 * n then [P']
         else if not_mine n W t (K + 1) a' o0' o1' then []
         else concat (map (\<lambda>c. sols fuel n W t c (P', a', o0', o1')) ?cs))"
      by (simp add: sols.simps f kK node_of_def pl)
    have tail: "\<And>s2. state_inv n s2 \<Longrightarrow> stack s2 = fs' @ rest \<Longrightarrow> same_below n K s s2 \<Longrightarrow>
        run n W t s = run n W t s2 \<Longrightarrow>
        results s2 = results s @ sols (Suc fuel) n W t f (node_of s K) \<Longrightarrow> ?case"
    proof -
      fix s2 assume a: "state_inv n s2" "stack s2 = fs' @ rest" "same_below n K s s2"
        "run n W t s = run n W t s2"
        "results s2 = results s @ sols (Suc fuel) n W t f (node_of s K)"
      from Cons.IH[OF a(1,2)] Cons.prems(3,4) obtain s' where
        s': "run n W t s2 = run n W t s'" "state_inv n s'" "stack s' = rest"
          "results s' = results s2 @ concat (map (\<lambda>f. sols (Suc fuel) n W t f (node_of s2 K)) fs')"
          "same_below n K s2 s'"
        by auto
      have "map (\<lambda>f. sols (Suc fuel) n W t f (node_of s2 K)) fs'
          = map (\<lambda>f. sols (Suc fuel) n W t f (node_of s K)) fs'"
      proof (rule map_cong[OF refl])
        fix g assume g: "g \<in> set fs'"
        then have gK: "fst g = K" using Cons.prems(3) by simp
        have "frame_inv n s g" using fin g by simp
        from sols_node_cong[OF n this, of s2] a(3) gK
        show "sols (Suc fuel) n W t g (node_of s2 K) = sols (Suc fuel) n W t g (node_of s K)"
          by simp
      qed
      then have "concat (map (\<lambda>f. sols (Suc fuel) n W t f (node_of s2 K)) fs')
          = concat (map (\<lambda>f. sols (Suc fuel) n W t f (node_of s K)) fs')"
        by (rule arg_cong)
      then have "results s' = results s @ concat (map (\<lambda>f. sols (Suc fuel) n W t f (node_of s K)) (f # fs'))"
        using s'(4) a(5) by simp
      moreover have "same_below n K s s'" by (rule same_below_trans[OF a(3) s'(5) K(1)])
      ultimately show ?case using s'(1,2,3) a(4) by auto
    qed
    show ?case
    proof (cases "K + 1 = 2 * n \<or> not_mine n W t (K + 1) a' o0' o1'")
      case True
      then have "stack s1 = fs' @ rest" "results s1 = results s @ sols (Suc fuel) n W t f (node_of s K)"
        using sh sf by (auto split: if_splits)
      then show ?thesis using tail[OF s1(2) _ s1(4) r1] by simp
    next
      case False
      then have c1: "stack s1 = ?cs @ fs' @ rest" "results s1 = results s"
        and sf': "sols (Suc fuel) n W t f (node_of s K)
           = concat (map (\<lambda>c. sols fuel n W t c (P', a', o0', o1')) ?cs)"
        using sh sf by (auto split: if_splits)
      have dep: "\<forall>c\<in>set ?cs. fst c = K + 1" using children_depth by simp
      have fu: "2 * n - (K + 1) \<le> int fuel" using Cons.prems(4) by simp
      from Suc.IH[OF s1(2) c1(1) dep fu] obtain s2 where
        s2: "run n W t s1 = run n W t s2" "state_inv n s2" "stack s2 = fs' @ rest"
          "results s2 = results s1 @ concat (map (\<lambda>f. sols fuel n W t f (node_of s1 (K + 1))) ?cs)"
          "same_below n (K + 1) s1 s2"
        by blast
      have av: "availability s1 ! nat K = availability s ! nat K"
        using s1(4) K(1) by (simp add: same_below_def)
      have "availability s1 ! nat (K + 1) = a'" using s1(3) by (simp add: node_of_def)
      then have "avail_vals n (availability s1 ! nat (K + 1)) \<subseteq> avail_vals n (availability s1 ! nat K)"
        using node_ok_place(2)[OF n fi pl] av by simp
      from same_below_down[OF s2(5) this] have "same_below n K s1 s2" .
      from same_below_trans[OF s1(4) this K(1)] have sb: "same_below n K s s2" .
      have "results s2 = results s @ sols (Suc fuel) n W t f (node_of s K)"
        using s2(4) c1(2) sf' s1(3) by simp
      then show ?thesis using tail[OF s2(2,3) sb] r1 s2(1) by simp
    qed
  qed
qed

lemma dfs_from_sols:
  assumes n: "valid_n n" and sz: "declared_sizes n av ps os"
  shows "dfs_from av ps os n W t =
     Inr (sols (nat (2 * n)) n W t (0, - 1, 0, 0) (node_of (start_state av ps os n) 0))"
proof -
  let ?s = "(start_state av ps os n)\<lparr>stack := [(0, - 1, 0, 0)]\<rparr>"
  have p: "pushes n [(0, - 1, 0, 0)] [] = Inr [(0, - 1, 0, 0)]"
    using n by (simp add: pushes_def valid_n_def)
  have fu: "2 * n - 0 \<le> int (nat (2 * n))" using n by (simp add: valid_n_def)
  from run_frames[OF n init_inv[OF n sz], of "[(0, - 1, 0, 0)]" "[]" 0 "nat (2 * n)" W t] fu
  obtain s' where s': "run n W t ?s = run n W t s'" "stack s' = []"
    "results s' = results ?s @ concat (map (\<lambda>f. sols (nat (2 * n)) n W t f (node_of ?s 0)) [(0, - 1, 0, 0)])"
    by auto
  have "run n W t s' = Inr s'" using s'(2) by (subst run.simps) simp
  moreover have "node_of ?s 0 = node_of (start_state av ps os n) 0" by (simp add: node_of_def)
  moreover have "results ?s = []" by (simp add: start_state_def)
  ultimately show ?thesis using s'(1,3) by (simp add: dfs_from_def p)
qed

lemma dfs_sols:
  assumes n: "valid_n n"
  shows "dfs n W t = Inr (sols (nat (2 * n)) n W t (0, - 1, 0, 0) (node_of (init_state n) 0))"
  unfolding dfs_def init_state_def using n
  by (intro dfs_from_sols zero_sizes) (simp_all add: valid_n_def)

text \<open>
  The contents that the uninitialised arrays have when \<open>dfs\<close> starts do not change what
  the worker records: a cell is written before it is read, and \<open>pos\<close> is recorded only
  once every value has been placed.
\<close>

lemma dfs_from_any:
  assumes n: "valid_n n" and sz: "declared_sizes n av ps os"
  shows "dfs_from av ps os n W t = dfs n W t"
proof -
  from n have n0: "0 \<le> n" "1 \<le> n" "n \<le> 31" by (simp_all add: valid_n_def kMaxN_def)
  from sz have l: "int (length av) = 2 * n + 1" "int (length ps) = n" "int (length os) = 4 * n + 2"
    by (simp_all add: declared_sizes_def)
  let ?a = "s32 (msb n OR (msb n - 1))"
  let ?z = "replicate (nat n) (0::int)"
  have ln: "0 < length av" "1 < length os" "0 < length os" using n0 l by auto
  have nd: "node_of (start_state av ps os n) 0 = (ps, ?a, 0, 0)"
    using ln by (simp add: node_of_def start_state_def nth_list_update)
  have nz: "node_of (init_state n) 0 = (?z, ?a, 0, 0)"
    using n0 by (simp add: node_of_def init_state_def start_state_def)
  have fi: "frame_inv n ((init_state n)\<lparr>stack := [(0, - 1, 0, 0)]\<rparr>) (0, - 1, 0, 0)"
    using init_inv[OF n zero_sizes[OF n0(1)]] by (simp add: state_inv_def init_state_def)
  have no: "node_ok n 0 0 ?a 0 0 ?z" and dc: "decision_ok n 0 (- 1) 0 0 ?a 0 0"
    using frame_invD[OF fi] n0 by (simp_all add: init_state_def start_state_def)
  have e: "closed_vals n (avail_vals n ?a) = {}"
    using avail_init(1)[OF n0(2,3)] by (simp add: closed_vals_def)
  have "sols (nat (2 * n)) n W t (0, - 1, 0, 0) (ps, ?a, 0, 0)
      = sols (nat (2 * n)) n W t (0, - 1, 0, 0) (?z, ?a, 0, 0)"
    by (rule sols_cong[OF n no dc]) (use l n0 in \<open>simp_all add: e\<close>)
  then show ?thesis
    by (simp add: dfs_from_sols[OF n sz] dfs_sols[OF n] nd nz)
qed

lemma collect_all_Inr:
  "\<forall>r\<in>set rs. \<exists>xs. r = Inr xs \<Longrightarrow> collect rs = Inr (concat (map projr rs))"
  by (induction rs) auto

lemma ledger_dfs:
  assumes n: "valid_n n"
  shows "ledger_with dfs W n =
     Inr (concat (map (\<lambda>t. sols (nat (2 * n)) n W t (0, - 1, 0, 0) (node_of (init_state n) 0)) [0..W - 1]))"
proof -
  have "collect (map (dfs n W) [0..W - 1]) = Inr (concat (map projr (map (dfs n W) [0..W - 1])))"
    by (rule collect_all_Inr) (auto simp: dfs_sols[OF n])
  also have "map projr (map (dfs n W) [0..W - 1])
      = map (\<lambda>t. sols (nat (2 * n)) n W t (0, - 1, 0, 0) (node_of (init_state n) 0)) [0..W - 1]"
    by (simp add: dfs_sols[OF n])
  finally show ?thesis by (simp add: ledger_with_def)
qed

lemma owner_unique:
  assumes "1 < W" "W < 2 ^ 64"
  shows "\<exists>!t. 0 \<le> t \<and> t < W \<and> \<not> not_mine n W t (k_limit n) a o0 o1"
proof (rule ex1I[of _ "hash W a o0 o1"])
  show "0 \<le> hash W a o0 o1 \<and> hash W a o0 o1 < W \<and>
        \<not> not_mine n W (hash W a o0 o1) (k_limit n) a o0 o1"
    using hash_range[OF assms, of a o0 o1] owner_iff[OF assms, of "hash W a o0 o1" n a o0 o1]
    by simp
next
  fix t assume "0 \<le> t \<and> t < W \<and> \<not> not_mine n W t (k_limit n) a o0 o1"
  then show "t = hash W a o0 o1" using owner_iff[OF assms, of t n a o0 o1] by simp
qed

lemma k_limit_val:
  "valid_n n \<Longrightarrow> k_limit n = (if n > 19 then 8 + n div 3 else n - 5)"
  by (auto simp: k_limit_def valid_n_def kMaxN_def s8_def)

lemma k_limit_lt: "valid_n n \<Longrightarrow> k_limit n < 2 * n"
  by (auto simp: k_limit_val valid_n_def kMaxN_def)

lemma concat_all_Nil: "(\<forall>t\<in>set ts. f t = []) \<Longrightarrow> concat (map f ts) = []"
  by (induction ts) simp_all

lemma mset_concat_single:
  "distinct ts \<Longrightarrow> h \<in> set ts \<Longrightarrow> (\<forall>t\<in>set ts. t \<noteq> h \<longrightarrow> f t = []) \<Longrightarrow>
     mset (concat (map f ts)) = mset (f h)"
proof (induction ts)
  case Nil then show ?case by simp
next
  case (Cons t ts)
  show ?case
  proof (cases "t = h")
    case True
    then have "\<forall>u\<in>set ts. f u = []" using Cons.prems by auto
    then have "concat (map f ts) = []" by (rule concat_all_Nil)
    then show ?thesis using True by simp
  next
    case False
    then have "f t = []" "h \<in> set ts" using Cons.prems by auto
    then show ?thesis using Cons by simp
  qed
qed

lemma mset_concat_append:
  "mset (concat (map (\<lambda>c. A c @ B c) cs)) = mset (concat (map A cs)) + mset (concat (map B cs))"
  by (induction cs) (simp_all add: ac_simps)

lemma mset_concat_swap:
  "mset (concat (map (\<lambda>t. concat (map (g t) cs)) ts))
     = mset (concat (map (\<lambda>c. concat (map (\<lambda>t. g t c) ts)) cs))"
proof (induction ts)
  case Nil
  have "concat (map (\<lambda>c. []) cs) = ([] :: 'a list)" by (induction cs) simp_all
  then show ?case by simp
next
  case (Cons t ts)
  show ?case using Cons.IH
    by (simp add: mset_concat_append[of "g t" "\<lambda>c. concat (map (\<lambda>t. g t c) ts)" cs])
qed

lemma mset_concat_cong:
  "(\<And>c. c \<in> set cs \<Longrightarrow> mset (F c) = mset (G c)) \<Longrightarrow>
     mset (concat (map F cs)) = mset (concat (map G cs))"
  by (induction cs) simp_all

lemma sols_mset:
  assumes n: "valid_n n" and W: "1 < W" "W < 2 ^ 64"
  shows "k + 1 \<le> k_limit n \<Longrightarrow>
     mset (concat (map (\<lambda>t. sols fuel n W t (k, m, d, no) nd) [0..W - 1]))
       = mset (sols fuel n 1 0 (k, m, d, no) nd)"
proof (induction fuel arbitrary: k m d no nd)
  case 0
  have "concat (map (\<lambda>t. sols 0 n W t (k, m, d, no) nd) [0..W - 1]) = []"
    by (rule concat_all_Nil) (simp add: sols.simps)
  then show ?case by (simp add: sols.simps)
next
  case (Suc fuel)
  obtain P a p0 p1 where nd: "nd = (P, a, p0, p1)" by (cases nd) auto
  obtain P' a' o0' o1' no' where pl: "place n k m d (P, a, p0, p1, no) = (P', a', o0', o1', no')"
    by (metis prod_cases5)
  let ?cs = "rev (children n (k + 1) a' no' o0' o1')"
  let ?nd = "(P', a', o0', o1')"
  let ?f = "(k, m, d, no)"
  have k2: "k + 1 \<noteq> 2 * n" using Suc.prems k_limit_lt[OF n] by simp
  have rhs: "sols (Suc fuel) n 1 0 ?f nd = concat (map (\<lambda>c. sols fuel n 1 0 c ?nd) ?cs)"
    using k2 by (simp add: sols.simps nd pl)
  show ?case
  proof (cases "k + 1 = k_limit n")
    case True
    let ?h = "hash W a' o0' o1'"
    have h: "?h \<in> set [0..W - 1]" using hash_range[OF W, of a' o0' o1'] by simp
    have own: "\<And>t. t \<in> set [0..W - 1] \<Longrightarrow> \<not> not_mine n W t (k + 1) a' o0' o1' \<longleftrightarrow> t = ?h"
      using owner_iff[OF W] True by simp
    have past: "\<And>c t. c \<in> set ?cs \<Longrightarrow> sols fuel n W t c ?nd = sols fuel n 1 0 c ?nd"
    proof -
      fix c t assume "c \<in> set ?cs"
      then have "fst c = k + 1" using children_depth by simp
      then obtain m' d' no'' where "c = (k + 1, m', d', no'')" by (cases c) auto
      then show "sols fuel n W t c ?nd = sols fuel n 1 0 c ?nd"
        using sols_past_limit[of n "k + 1"] True by simp
    qed
    have mine: "sols (Suc fuel) n W ?h ?f nd = sols (Suc fuel) n 1 0 ?f nd"
    proof -
      have "map (\<lambda>c. sols fuel n W ?h c ?nd) ?cs = map (\<lambda>c. sols fuel n 1 0 c ?nd) ?cs"
        by (intro map_cong) (auto simp: past)
      then have eq: "concat (map (\<lambda>c. sols fuel n W ?h c ?nd) ?cs)
          = concat (map (\<lambda>c. sols fuel n 1 0 c ?nd) ?cs)"
        by (rule arg_cong)
      have "\<not> not_mine n W ?h (k + 1) a' o0' o1'" using own[OF h] by simp
      then show ?thesis using k2 by (simp add: sols.simps nd pl eq)
    qed
    have others: "\<forall>t\<in>set [0..W - 1]. t \<noteq> ?h \<longrightarrow> sols (Suc fuel) n W t ?f nd = []"
      using own k2 by (simp add: sols.simps nd pl)
    have "mset (concat (map (\<lambda>t. sols (Suc fuel) n W t ?f nd) [0..W - 1]))
        = mset (sols (Suc fuel) n W ?h ?f nd)"
      by (rule mset_concat_single[OF distinct_upto h others])
    then show ?thesis using mine by simp
  next
    case False
    then have lt: "k + 1 + 1 \<le> k_limit n" using Suc.prems by simp
    have nm: "\<And>t. \<not> not_mine n W t (k + 1) a' o0' o1'"
      using False by (intro not_mine_off_limit)
    have lhs: "\<And>t. sols (Suc fuel) n W t ?f nd = concat (map (\<lambda>c. sols fuel n W t c ?nd) ?cs)"
      using k2 nm by (simp add: sols.simps nd pl)
    have ch: "\<And>c. c \<in> set ?cs \<Longrightarrow>
        mset (concat (map (\<lambda>t. sols fuel n W t c ?nd) [0..W - 1])) = mset (sols fuel n 1 0 c ?nd)"
    proof -
      fix c assume "c \<in> set ?cs"
      then have "fst c = k + 1" using children_depth by simp
      then obtain m' d' no'' where "c = (k + 1, m', d', no'')" by (cases c) auto
      then show "mset (concat (map (\<lambda>t. sols fuel n W t c ?nd) [0..W - 1])) = mset (sols fuel n 1 0 c ?nd)"
        using Suc.IH[OF lt, of m' d' no'' ?nd] by simp
    qed
    have "mset (concat (map (\<lambda>t. concat (map (\<lambda>c. sols fuel n W t c ?nd) ?cs)) [0..W - 1]))
        = mset (concat (map (\<lambda>c. concat (map (\<lambda>t. sols fuel n W t c ?nd) [0..W - 1])) ?cs))"
      by (rule mset_concat_swap)
    also have "\<dots> = mset (concat (map (\<lambda>c. sols fuel n 1 0 c ?nd) ?cs))"
      by (rule mset_concat_cong) (rule ch)
    finally show ?thesis unfolding lhs rhs .
  qed
qed

lemma dfs_below_partition:
  assumes "valid_n n" "k_limit n \<le> 0"
  shows "dfs n W t = dfs n 1 0"
  using sols_past_limit[OF assms(2)] by (simp add: dfs_sols[OF assms(1)])

lemma step_at_partition:
  assumes W: "1 < W" "W < 2 ^ 64" and t: "0 \<le> t" "t < W"
    and at: "at_partition n s" and k2: "k_limit n \<noteq> 2 * n"
    and s1: "step n 1 0 s = Inr s1"
  shows "step n W t s = Inr (if t = owner n W s then s1 else s1\<lparr>stack := tl (stack s)\<rparr>)"
proof -
  obtain k m d no rest where st: "stack s = (k, m, d, no) # rest" and kl: "s8 (k + 1) = k_limit n"
    using at by (auto simp: at_partition_def split: list.splits)
  obtain P' a' o0' o1' no' where pl: "place n k m d (pos s, availability s ! nat k,
      opens s ! nat (2 * k), opens s ! nat (2 * k + 1), no) = (P', a', o0', o1', no')"
    by (metis prod_cases5)
  have ow: "owner n W s = hash W a' o0' o1'" by (simp add: owner_def top_node_def st pl)
  have nm: "not_mine n W t (k_limit n) a' o0' o1' \<longleftrightarrow> t \<noteq> hash W a' o0' o1'"
    using owner_iff[OF W t, of n a' o0' o1'] by auto
  show ?thesis
    using s1 nm k2 unfolding step_def ow
    by (auto simp: st pl kl Let_def split: if_splits sum.splits)
qed

lemma reachable_at_partition:
  assumes n: "valid_n n" and W: "1 < W" "W < 2 ^ 64" and t: "0 \<le> t" "t < W"
    and r: "reachable n W t s" and at: "at_partition n s"
  shows "owner n W s \<in> {0..W - 1} \<and>
         (\<exists>s1. step n 1 0 s = Inr s1 \<and> results s1 = results s \<and>
            step n W t s = Inr (if t = owner n W s then s1 else s1\<lparr>stack := tl (stack s)\<rparr>))"
proof -
  obtain k m d no rest where st: "stack s = (k, m, d, no) # rest" and kl: "s8 (k + 1) = k_limit n"
    using at by (auto simp: at_partition_def split: list.splits)
  obtain P' a' o0' o1' no' where pl: "place n k m d (pos s, availability s ! nat k,
      opens s ! nat (2 * k), opens s ! nat (2 * k + 1), no) = (P', a', o0', o1', no')"
    by (metis prod_cases5)
  have inv: "state_inv n s" by (rule reachable_inv[OF r n])
  have "frame_inv n s (k, m, d, no)" using reachable_frame[OF n r, of "(k, m, d, no)"] st by simp
  then have k: "0 \<le> k" "k < 2 * n" by (auto dest: frame_invD(2) simp: decision_ok_def)
  from n have "n \<le> 31" by (simp add: valid_n_def kMaxN_def)
  then have k1: "s8 (k + 1) = k + 1" using k by (intro s8_id) auto
  have k2: "k + 1 \<noteq> 2 * n" using k_limit_lt[OF n] kl k1 by simp
  have ow: "owner n W s = hash W a' o0' o1'" by (simp add: owner_def top_node_def st pl)
  have 1: "owner n W s \<in> {0..W - 1}" using hash_range[OF W, of a' o0' o1'] ow by simp
  from step_shape[OF n inv st pl, of 1 0] k2
  obtain s1 where s1: "step n 1 0 s = Inr s1" "results s1 = results s" by auto
  have "k_limit n \<noteq> 2 * n" using k_limit_lt[OF n] by simp
  from step_at_partition[OF W t at this s1(1)] s1 1 show ?thesis by blast
qed

text \<open>
  C3: with \<open>W\<close> workers, \<open>1 \<le> W < 2^31\<close>.

  \<^item> The test of the loop at the partition depth keeps a node for exactly one worker id
    in \<open>0, \<dots>, W - 1\<close>.
  \<^item> In the loop itself: when a worker \<open>t\<close> is in a reachable state whose top frame
    leads to a node of the partition depth, the owner of the node is an id in
    \<open>0, \<dots>, W - 1\<close> that depends on the node only; if \<open>t\<close> is the owner, its iteration is
    the iteration of the unpartitioned worker (\<open>W = 1\<close>, where the test is switched
    off); if not, the iteration writes the same words, removes the frame from the
    stack, pushes nothing and records nothing.
  \<^item> Every worker returns, and the entries of the ledger, that is, the union over the
    workers of what each appends, are as a set the entries that a single worker finds
    on the unpartitioned tree. When the search reaches the partition depth
    (\<open>1 \<le> k_limit\<close>, that is \<open>n \<ge> 6\<close>) they are the same as a multiset: every
    path to a solution is recorded by exactly one worker, and no path twice.
  \<^item> \<open>solve\<close> returns the same count for \<open>W\<close> workers as for one.
\<close>

theorem partition_complete:
  assumes "valid_n n" and "1 \<le> W" and "W < 2 ^ 31"
  shows "(1 < W \<longrightarrow> (\<exists>!t. 0 \<le> t \<and> t < W \<and> \<not> not_mine n W t (k_limit n) a o0 o1)) \<and>
         (\<forall>t\<in>{0..W - 1}. \<forall>s. 1 < W \<and> reachable n W t s \<and> at_partition n s \<longrightarrow>
            owner n W s \<in> {0..W - 1} \<and>
            (\<exists>s1. step n 1 0 s = Inr s1 \<and> results s1 = results s \<and>
               step n W t s = Inr (if t = owner n W s then s1 else s1\<lparr>stack := tl (stack s)\<rparr>))) \<and>
         (\<exists>rsW rs1. ledger_with dfs W n = Inr rsW \<and> dfs n 1 0 = Inr rs1 \<and>
            ledger_with dfs 1 n = Inr rs1 \<and> set rsW = set rs1 \<and>
            (1 \<le> k_limit n \<longrightarrow> mset rsW = mset rs1) \<and>
            (\<forall>t\<in>{0..W - 1}. \<exists>rs. dfs n W t = Inr rs \<and> set rs \<subseteq> set rs1)) \<and>
         solve_with dfs W n = solve_with dfs 1 n"
proof -
  have W64: "W < 2 ^ 64" using assms(3) by simp
  let ?f = "\<lambda>W t. sols (nat (2 * n)) n W t (0, - 1, 0, 0) (node_of (init_state n) 0)"
  have 1: "1 < W \<longrightarrow> (\<exists>!t. 0 \<le> t \<and> t < W \<and> \<not> not_mine n W t (k_limit n) a o0 o1)"
    using owner_unique[OF _ W64] by blast
  have 2: "\<forall>t\<in>{0..W - 1}. \<forall>s. 1 < W \<and> reachable n W t s \<and> at_partition n s \<longrightarrow>
            owner n W s \<in> {0..W - 1} \<and>
            (\<exists>s1. step n 1 0 s = Inr s1 \<and> results s1 = results s \<and>
               step n W t s = Inr (if t = owner n W s then s1 else s1\<lparr>stack := tl (stack s)\<rparr>))"
  proof (intro ballI allI impI)
    fix t s assume t: "t \<in> {0..W - 1}" and h: "1 < W \<and> reachable n W t s \<and> at_partition n s"
    from t have "0 \<le> t" "t < W" by simp_all
    from reachable_at_partition[OF assms(1) _ W64 this] h
    show "owner n W s \<in> {0..W - 1} \<and>
            (\<exists>s1. step n 1 0 s = Inr s1 \<and> results s1 = results s \<and>
               step n W t s = Inr (if t = owner n W s then s1 else s1\<lparr>stack := tl (stack s)\<rparr>))"
      by blast
  qed
  have lW: "ledger_with dfs W n = Inr (concat (map (?f W) [0..W - 1]))"
    by (rule ledger_dfs[OF assms(1)])
  have l1: "ledger_with dfs 1 n = Inr (?f 1 0)"
    using ledger_dfs[OF assms(1), of 1] by simp
  have d1: "dfs n 1 0 = Inr (?f 1 0)" by (rule dfs_sols[OF assms(1)])
  have un: "(\<Union>t\<in>{0..W - 1}. set (?f W t)) = set (?f 1 0)"
    by (rule sols_union[OF assms(2) W64])
  then have se: "set (concat (map (?f W) [0..W - 1])) = set (?f 1 0)" by simp
  have ms: "1 \<le> k_limit n \<longrightarrow> mset (concat (map (?f W) [0..W - 1])) = mset (?f 1 0)"
  proof (cases "W = 1")
    case True then show ?thesis by simp
  next
    case False
    then have "1 < W" using assms(2) by simp
    from sols_mset[OF assms(1) this W64, of 0] show ?thesis by simp
  qed
  have each: "\<forall>t\<in>{0..W - 1}. \<exists>rs. dfs n W t = Inr rs \<and> set rs \<subseteq> set (?f 1 0)"
    using un dfs_sols[OF assms(1), of W] by auto
  have 3: "\<exists>rsW rs1. ledger_with dfs W n = Inr rsW \<and> dfs n 1 0 = Inr rs1 \<and>
            ledger_with dfs 1 n = Inr rs1 \<and> set rsW = set rs1 \<and>
            (1 \<le> k_limit n \<longrightarrow> mset rsW = mset rs1) \<and>
            (\<forall>t\<in>{0..W - 1}. \<exists>rs. dfs n W t = Inr rs \<and> set rs \<subseteq> set rs1)"
    using lW l1 d1 se ms each by blast
  have "snd (unique_count (concat (map (?f W) [0..W - 1]))) = snd (unique_count (?f 1 0))"
    using se by (simp add: unique_count_eq length_remdups_adj_sorted)
  then have 4: "solve_with dfs W n = solve_with dfs 1 n"
    by (simp add: solve_with_def lW l1)
  show ?thesis using 1 2 3 4 by blast
qed

theorem partition_complete_witness:
  "valid_n 8 \<and> (1::int) \<le> 511 \<and> (511::int) < 2 ^ 31 \<and> k_limit 8 = 3 \<and>
   state_after 8 511 0 2 = Inr partition_state_8 \<and>
   state_after 8 511 313 2 = Inr partition_state_8 \<and>
   at_partition 8 partition_state_8 \<and>
   top_node 8 partition_state_8 = ([0, 0, 0, 0, 0, 0, 0, 0], 255, 57344, 0, 3) \<and>
   owner 8 511 partition_state_8 = 313 \<and>
   step 8 1 0 partition_state_8 =
     Inr (explored_state_8\<lparr>stack := [(3, - 1, 0, 3), (3, - 1, 1, 3), (2, - 1, 1, 2), (1, - 1, 1, 1)]\<rparr>) \<and>
   step 8 511 313 partition_state_8 =
     Inr (explored_state_8\<lparr>stack := [(3, - 1, 0, 3), (3, - 1, 1, 3), (2, - 1, 1, 2), (1, - 1, 1, 1)]\<rparr>) \<and>
   step 8 511 0 partition_state_8 = Inr (explored_state_8\<lparr>stack := [(2, - 1, 1, 2), (1, - 1, 1, 1)]\<rparr>) \<and>
   dfs 8 511 0 = Inr [] \<and>
   dfs 8 511 238 = Inr [[2, 13, 9, 6, 14, 11, 15, 12], [2, 12, 5, 13, 10, 14, 11, 15]] \<and>
   (\<exists>rsW rs1. ledger_with dfs 511 8 = Inr rsW \<and> dfs 8 1 0 = Inr rs1 \<and>
      set rsW = set rs1 \<and> mset rsW = mset rs1 \<and>
      [2, 13, 9, 6, 14, 11, 15, 12] \<in> set rs1 \<and> [2, 12, 5, 13, 10, 14, 11, 15] \<in> set rs1) \<and>
   solve_with dfs 511 8 = solve_with dfs 1 8"
proof -
  let ?S1 = "explored_state_8\<lparr>stack := [(3, - 1, 0, 3), (3, - 1, 1, 3), (2, - 1, 1, 2), (1, - 1, 1, 1)]\<rparr>"
  have v: "valid_n 8" by (simp add: valid_n_def kMaxN_def)
  have a: "(1::int) \<le> 511" "(511::int) < 2 ^ 31" by simp_all
  have kl: "k_limit 8 = 3" by code_simp
  have s0: "state_after 8 511 0 2 = Inr partition_state_8" by code_simp
  have s313: "state_after 8 511 313 2 = Inr partition_state_8" by code_simp
  have at: "at_partition 8 partition_state_8" by code_simp
  have tn: "top_node 8 partition_state_8 = ([0, 0, 0, 0, 0, 0, 0, 0], 255, 57344, 0, 3)"
    by code_simp
  have ow: "owner 8 511 partition_state_8 = 313" by code_simp
  have u: "step 8 1 0 partition_state_8 = Inr ?S1" by code_simp
  have tl: "tl (stack partition_state_8) = [(2, - 1, 1, 2), (1, - 1, 1, 1)]"
    by (simp add: partition_state_8_def)
  have r0: "reachable 8 511 0 partition_state_8" by (rule state_after_reachable[OF s0])
  have r313: "reachable 8 511 313 partition_state_8" by (rule state_after_reachable[OF s313])
  note th = partition_complete[OF v a, of 255 57344 0]
  from th have p: "\<forall>t\<in>{0..511 - 1}. \<forall>s. 1 < (511::int) \<and> reachable 8 511 t s \<and> at_partition 8 s \<longrightarrow>
            owner 8 511 s \<in> {0..511 - 1} \<and>
            (\<exists>s1. step 8 1 0 s = Inr s1 \<and> results s1 = results s \<and>
               step 8 511 t s = Inr (if t = owner 8 511 s then s1 else s1\<lparr>stack := tl (stack s)\<rparr>))"
    by blast
  have e0: "step 8 511 0 partition_state_8 = Inr (explored_state_8\<lparr>stack := [(2, - 1, 1, 2), (1, - 1, 1, 1)]\<rparr>)"
    using p[rule_format, of 0 partition_state_8] r0 at ow u tl by simp
  have e313: "step 8 511 313 partition_state_8 = Inr ?S1"
    using p[rule_format, of 313 partition_state_8] r313 at ow u by simp
  have w0: "dfs 8 511 0 = Inr []" by code_simp
  have w238: "dfs 8 511 238 = Inr [[2, 13, 9, 6, 14, 11, 15, 12], [2, 12, 5, 13, 10, 14, 11, 15]]"
    by code_simp
  from th kl obtain rsW rs1 where L: "ledger_with dfs 511 8 = Inr rsW" "dfs 8 1 0 = Inr rs1"
    "set rsW = set rs1" "mset rsW = mset rs1"
    and each: "\<forall>t\<in>{0..511 - 1}. \<exists>rs. dfs 8 511 t = Inr rs \<and> set rs \<subseteq> set rs1"
    by auto
  from each[rule_format, of 238] w238
  have "[2, 13, 9, 6, 14, 11, 15, 12] \<in> set rs1" "[2, 12, 5, 13, 10, 14, 11, 15] \<in> set rs1"
    by auto
  with L have l: "\<exists>rsW rs1. ledger_with dfs 511 8 = Inr rsW \<and> dfs 8 1 0 = Inr rs1 \<and>
      set rsW = set rs1 \<and> mset rsW = mset rs1 \<and>
      [2, 13, 9, 6, 14, 11, 15, 12] \<in> set rs1 \<and> [2, 12, 5, 13, 10, 14, 11, 15] \<in> set rs1"
    by blast
  have sv: "solve_with dfs 511 8 = solve_with dfs 1 8" using th by blast
  show ?thesis using v a kl s0 s313 at tn ow u e0 e313 w0 w238 l sv by simp
qed

section \<open>Fixture values\<close>

text \<open>
  The two smallest fixtures of C1, by evaluation of the model inside the kernel. For
  \<open>n = 3\<close> and \<open>n = 4\<close> no node lies at the partition depth, so that the result of a
  worker does not depend on its id.
\<close>

lemma dfs_4: "dfs 4 511 t = Inr []"
  by code_simp

lemma solve_3: "solve 3 = Inr 1"
proof -
  have "snd (unique_count (replicate 511 [3, 5, 4 :: int])) = 1"
    by (simp add: unique_count_eq length_remdups_adj_sorted)
  then show ?thesis
    by (simp add: solve_def solve_with_def ledger_3 kMaxN_def s32_def)
qed

lemma solve_4: "solve 4 = Inr 0"
proof -
  have "collect (map (dfs 4 511) [0..510]) = Inr (concat (replicate (length (map (dfs 4 511) [0..510])) []))"
    by (rule collect_const) (simp add: dfs_4)
  then have "ledger_with dfs kMaxThreads 4 = Inr []"
    by (simp add: ledger_with_def kMaxThreads_def)
  then show ?thesis
    by (simp add: solve_def solve_with_def kMaxN_def s32_def unique_count_def)
qed

end
